theory Spec2Isabelle
  imports Complex_Main
begin

section \<open>A bounded LRU cache with TTL expiry: model of \<open>src/index.ts\<close>\<close>

text \<open>
  The class \<open>LruCache\<close> of \<open>src/index.ts\<close> keeps its entries in a JavaScript \<open>Map\<close>,
  whose iteration order is insertion order: the first entry is the least recently used
  one, the last entry the most recently used one. The model keeps the \<open>Map\<close> as an
  association list in that order. The two collaborators of the class are explicit:
  \<^item> the clock: \<open>Date.now()\<close> is a stateful read. The clock is a function from the
    number of reads made so far to the reading; the counter \<open>ticks\<close> of the world is
    bumped at each read. Nothing is assumed about the clock (it need not be monotone);
  \<^item> the eviction sink: the callback \<open>onEvict\<close> is modelled by its outcome (it returns
    or it throws) at each (key, value); its invocations are recorded in \<open>sink_calls\<close>,
    and what \<open>console.error\<close> reports in \<open>console\<close>. A callback that calls back into
    the cache it is notified by is outside the model.
  JavaScript numbers are modelled by their mathematical value: a finite number is a
  rational, and the three non-finite values are constructors of their own. Timestamps
  and validated durations are integers; the rounding of a double beyond 2^53 is not
  modelled. The accessors that only read the object (\<open>isEmpty\<close>, \<open>getCapacity\<close>,
  \<open>values\<close>, \<open>entries\<close>, \<open>entriesNewestFirst\<close>, \<open>forEach\<close>, \<open>stats\<close>) and
  \<open>resetStats\<close> take no part in the properties below and are left out.
\<close>

subsection \<open>Values of the language\<close>

datatype number = Num rat | NaN | PosInfinity | NegInfinity

text \<open>A parameter of type \<open>T | null | undefined\<close>.\<close>

datatype 'a optional = Undefined | Null | Value 'a

datatype error = Error string

text \<open>\<open>Number.isInteger(x)\<close>.\<close>

fun isInteger :: "number \<Rightarrow> bool" where
  "isInteger (Num r) = (of_int \<lfloor>r\<rfloor> = r)"
| "isInteger NaN = False"
| "isInteger PosInfinity = False"
| "isInteger NegInfinity = False"

text \<open>\<open>x > 0\<close> and \<open>x <= 0\<close> on numbers; every comparison with \<open>NaN\<close> is false.\<close>

fun gt_zero :: "number \<Rightarrow> bool" where
  "gt_zero (Num r) = (r > 0)"
| "gt_zero NaN = False"
| "gt_zero PosInfinity = True"
| "gt_zero NegInfinity = False"

fun le_zero :: "number \<Rightarrow> bool" where
  "le_zero (Num r) = (r \<le> 0)"
| "le_zero NaN = False"
| "le_zero PosInfinity = False"
| "le_zero NegInfinity = True"

text \<open>The integer a number stands for; it is read only where \<open>isInteger\<close> holds.\<close>

fun toInt :: "number \<Rightarrow> int" where
  "toInt (Num r) = \<lfloor>r\<rfloor>"
| "toInt NaN = 0"
| "toInt PosInfinity = 0"
| "toInt NegInfinity = 0"

subsection \<open>The data model\<close>

record 'v CacheEntry =
  value' :: 'v
  expiresAt :: "int option"

datatype sink_outcome = Returns | Throws

record ('k, 'v) LruCacheEvents =
  onEvict :: "('k \<Rightarrow> 'v \<Rightarrow> sink_outcome) option"

record ('k, 'v) LruCacheOptions =
  onEvict_option :: "('k \<Rightarrow> 'v \<Rightarrow> sink_outcome) option"
  trackStats_option :: "bool option"
  ttl :: "number optional"

record ('k, 'v) LruCache =
  capacity :: int
  cache :: "('k \<times> 'v CacheEntry) list"
  events :: "('k, 'v) LruCacheEvents"
  defaultTtl :: "int option"
  hits :: nat
  misses :: nat
  evictions :: nat
  trackStats :: bool

text \<open>What the class acts on outside itself: the clock reads, the sink, the console.\<close>

record ('k, 'v) world =
  ticks :: nat
  sink_calls :: "('k \<times> 'v) list"
  console :: "('k \<times> 'v) list"

type_synonym clock = "nat \<Rightarrow> int"

subsection \<open>The operations of \<open>Map\<close> the class uses\<close>

definition Map_get :: "('k \<times> 'e) list \<Rightarrow> 'k \<Rightarrow> 'e option" where
  "Map_get m k = map_of m k"

definition Map_has :: "('k \<times> 'e) list \<Rightarrow> 'k \<Rightarrow> bool" where
  "Map_has m k = (map_of m k \<noteq> None)"

definition Map_delete :: "'k \<Rightarrow> ('k \<times> 'e) list \<Rightarrow> ('k \<times> 'e) list" where
  "Map_delete k m = filter (\<lambda>p. fst p \<noteq> k) m"

text \<open>\<open>Map.prototype.set\<close>: a key already there keeps its place, a new key goes last.\<close>

fun Map_set :: "'k \<Rightarrow> 'e \<Rightarrow> ('k \<times> 'e) list \<Rightarrow> ('k \<times> 'e) list" where
  "Map_set k e [] = [(k, e)]"
| "Map_set k e (p # ps) = (if fst p = k then (k, e) # ps else p # Map_set k e ps)"

subsection \<open>The clock and the sink\<close>

definition Date_now :: "clock \<Rightarrow> ('k, 'v) world \<Rightarrow> int \<times> ('k, 'v) world" where
  "Date_now clk w = (clk (ticks w), w\<lparr>ticks := Suc (ticks w)\<rparr>)"

text \<open>
  \<open>LruCacheEvents.emitEviction\<close>: the callback, when there is one, is called inside
  \<open>try\<close>; the \<open>catch\<close> branch logs and goes on.
\<close>

definition emitEviction ::
  "('k, 'v) LruCacheEvents \<Rightarrow> 'k \<Rightarrow> 'v \<Rightarrow> ('k, 'v) world \<Rightarrow> ('k, 'v) world" where
  "emitEviction ev key v w =
     (case onEvict ev of
        None \<Rightarrow> w
      | Some f \<Rightarrow>
          (let w1 = w\<lparr>sink_calls := sink_calls w @ [(key, v)]\<rparr>
           in case f key v of
                Returns \<Rightarrow> w1
              | Throws \<Rightarrow> w1\<lparr>console := console w1 @ [(key, v)]\<rparr>))"

subsection \<open>The class\<close>

definition constructor ::
  "number \<Rightarrow> ('k, 'v) LruCacheOptions option \<Rightarrow> error + ('k, 'v) LruCache" where
  "constructor cap options =
     (if \<not> isInteger cap \<or> le_zero cap
      then Inl (Error ''Capacity must be a positive integer'')
      else if (case options of
                 None \<Rightarrow> False
               | Some os \<Rightarrow>
                   (case ttl os of
                      Undefined \<Rightarrow> False
                    | Null \<Rightarrow> False
                    | Value t \<Rightarrow> \<not> isInteger t \<or> le_zero t))
      then Inl (Error ''TTL must be a positive integer if specified'')
      else Inr \<lparr>capacity = toInt cap,
                cache = [],
                events = \<lparr>onEvict = (case options of None \<Rightarrow> None
                                      | Some os \<Rightarrow> onEvict_option os)\<rparr>,
                defaultTtl = (case options of
                                None \<Rightarrow> None
                              | Some os \<Rightarrow>
                                  (case ttl os of
                                     Undefined \<Rightarrow> None
                                   | Null \<Rightarrow> None
                                   | Value t \<Rightarrow> Some (toInt t))),
                hits = 0,
                misses = 0,
                evictions = 0,
                trackStats = (case options of
                                None \<Rightarrow> False
                              | Some os \<Rightarrow>
                                  (case trackStats_option os of
                                     None \<Rightarrow> False
                                   | Some b \<Rightarrow> b))\<rparr>)"

text \<open>\<open>#isExpired\<close>: the clock is read only for an entry that has an expiry.\<close>

definition isExpired ::
  "clock \<Rightarrow> 'v CacheEntry option \<Rightarrow> ('k, 'v) world \<Rightarrow> bool \<times> ('k, 'v) world" where
  "isExpired clk entry w =
     (case entry of
        None \<Rightarrow> (False, w)
      | Some e \<Rightarrow>
          (case expiresAt e of
             None \<Rightarrow> (False, w)
           | Some t \<Rightarrow> (case Date_now clk w of (now, w1) \<Rightarrow> (now > t, w1))))"

definition count_eviction :: "('k, 'v) LruCache \<Rightarrow> ('k, 'v) LruCache" where
  "count_eviction c = (if trackStats c then c\<lparr>evictions := evictions c + 1\<rparr> else c)"

definition count_miss :: "('k, 'v) LruCache \<Rightarrow> ('k, 'v) LruCache" where
  "count_miss c = (if trackStats c then c\<lparr>misses := misses c + 1\<rparr> else c)"

definition count_hit :: "('k, 'v) LruCache \<Rightarrow> ('k, 'v) LruCache" where
  "count_hit c = (if trackStats c then c\<lparr>hits := hits c + 1\<rparr> else c)"

definition deleteAndNotifyIfKeyExpired ::
  "clock \<Rightarrow> 'k \<Rightarrow> ('k, 'v) LruCache \<times> ('k, 'v) world
     \<Rightarrow> bool \<times> ('k, 'v) LruCache \<times> ('k, 'v) world" where
  "deleteAndNotifyIfKeyExpired clk key s =
     (case s of (c, w) \<Rightarrow>
        (let entry = Map_get (cache c) key
         in case isExpired clk entry w of
              (True, w1) \<Rightarrow>
                (case entry of
                   Some e \<Rightarrow>
                     (True,
                      count_eviction (c\<lparr>cache := Map_delete key (cache c)\<rparr>),
                      emitEviction (events c) key (value' e) w1)
                 | None \<Rightarrow> (True, c, w1))
            | (False, w1) \<Rightarrow> (False, c, w1)))"

definition setMostRecentlyUsed ::
  "'k \<Rightarrow> 'v \<Rightarrow> int option \<Rightarrow> ('k, 'v) LruCache \<Rightarrow> ('k, 'v) LruCache" where
  "setMostRecentlyUsed key v ex c =
     c\<lparr>cache := Map_set key \<lparr>value' = v, expiresAt = ex\<rparr> (Map_delete key (cache c))\<rparr>"

definition get ::
  "clock \<Rightarrow> 'k \<Rightarrow> ('k, 'v) LruCache \<times> ('k, 'v) world
     \<Rightarrow> 'v option \<times> ('k, 'v) LruCache \<times> ('k, 'v) world" where
  "get clk key s =
     (case deleteAndNotifyIfKeyExpired clk key s of
        (True, c1, w1) \<Rightarrow> (None, count_miss c1, w1)
      | (False, c1, w1) \<Rightarrow>
          (case Map_get (cache c1) key of
             None \<Rightarrow> (None, count_miss c1, w1)
           | Some entry \<Rightarrow>
               (Some (value' entry),
                count_hit (setMostRecentlyUsed key (value' entry) (expiresAt entry) c1),
                w1)))"

definition peek ::
  "clock \<Rightarrow> 'k \<Rightarrow> ('k, 'v) LruCache \<times> ('k, 'v) world
     \<Rightarrow> 'v option \<times> ('k, 'v) LruCache \<times> ('k, 'v) world" where
  "peek clk key s =
     (case deleteAndNotifyIfKeyExpired clk key s of
        (True, c1, w1) \<Rightarrow> (None, c1, w1)
      | (False, c1, w1) \<Rightarrow>
          (case Map_get (cache c1) key of
             None \<Rightarrow> (None, c1, w1)
           | Some entry \<Rightarrow> (Some (value' entry), c1, w1)))"

definition has ::
  "clock \<Rightarrow> 'k \<Rightarrow> ('k, 'v) LruCache \<times> ('k, 'v) world
     \<Rightarrow> bool \<times> ('k, 'v) LruCache \<times> ('k, 'v) world" where
  "has clk key s =
     (case deleteAndNotifyIfKeyExpired clk key s of
        (True, c1, w1) \<Rightarrow> (False, c1, w1)
      | (False, c1, w1) \<Rightarrow> (Map_has (cache c1) key, c1, w1))"

definition size' :: "('k, 'v) LruCache \<Rightarrow> nat" where
  "size' c = length (cache c)"

definition evictOldest ::
  "('k, 'v) LruCache \<times> ('k, 'v) world \<Rightarrow> 'k option \<times> ('k, 'v) LruCache \<times> ('k, 'v) world" where
  "evictOldest s =
     (case s of (c, w) \<Rightarrow>
        (case cache c of
           [] \<Rightarrow> (None, c, w)
         | oldestEntry # _ \<Rightarrow>
             (case oldestEntry of (oldestKey, oldestValue) \<Rightarrow>
                (Some oldestKey,
                 count_eviction (c\<lparr>cache := Map_delete oldestKey (cache c)\<rparr>),
                 emitEviction (events c) oldestKey (value' oldestValue) w))))"

text \<open>
  \<open>set\<close>: the existence check and the eviction come first, the validation of the
  per-item TTL after them; the \<open>throw\<close> leaves the method with what was done so far.
\<close>

definition set' ::
  "clock \<Rightarrow> 'k \<Rightarrow> 'v \<Rightarrow> number optional \<Rightarrow> ('k, 'v) LruCache \<times> ('k, 'v) world
     \<Rightarrow> (error + unit) \<times> ('k, 'v) LruCache \<times> ('k, 'v) world" where
  "set' clk key v itemTtlMs s =
     (case has clk key s of (present, c1, w1) \<Rightarrow>
        (case (if \<not> present \<and> int (size' c1) \<ge> capacity c1
               then (case evictOldest (c1, w1) of (_, c', w') \<Rightarrow> (c', w'))
               else (c1, w1)) of
           (c2, w2) \<Rightarrow>
             (let fallback =
                    (case defaultTtl c2 of
                       None \<Rightarrow> (Inr (), setMostRecentlyUsed key v None c2, w2)
                     | Some d \<Rightarrow>
                         (if d \<noteq> 0 \<and> d > 0
                          then (case Date_now clk w2 of (now, w3) \<Rightarrow>
                                  (Inr (), setMostRecentlyUsed key v (Some (now + d)) c2, w3))
                          else (Inr (), setMostRecentlyUsed key v None c2, w2)))
              in case itemTtlMs of
                   Null \<Rightarrow> (Inr (), setMostRecentlyUsed key v None c2, w2)
                 | Value n \<Rightarrow>
                     (if gt_zero n
                      then (if \<not> isInteger n
                            then (Inl (Error ''Item TTL must be a positive integer if specified''),
                                  c2, w2)
                            else (case Date_now clk w2 of (now, w3) \<Rightarrow>
                                    (Inr (),
                                     setMostRecentlyUsed key v (Some (now + toInt n)) c2,
                                     w3)))
                      else fallback)
                 | Undefined \<Rightarrow> fallback)))"

definition delete ::
  "'k \<Rightarrow> ('k, 'v) LruCache \<times> ('k, 'v) world \<Rightarrow> bool \<times> ('k, 'v) LruCache \<times> ('k, 'v) world" where
  "delete key s =
     (case s of (c, w) \<Rightarrow> (Map_has (cache c) key, c\<lparr>cache := Map_delete key (cache c)\<rparr>, w))"

definition clear ::
  "('k, 'v) LruCache \<times> ('k, 'v) world \<Rightarrow> ('k, 'v) LruCache \<times> ('k, 'v) world" where
  "clear s = (case s of (c, w) \<Rightarrow> (c\<lparr>cache := []\<rparr>, w))"

definition keys :: "('k, 'v) LruCache \<Rightarrow> 'k list" where
  "keys c = map fst (cache c)"

text \<open>\<open>purgeExpired\<close>: the loop over the snapshot of the keys.\<close>

fun purgeLoop ::
  "clock \<Rightarrow> 'k list \<Rightarrow> nat \<Rightarrow> ('k, 'v) LruCache \<times> ('k, 'v) world
     \<Rightarrow> nat \<times> ('k, 'v) LruCache \<times> ('k, 'v) world" where
  "purgeLoop clk [] purgedCount s = (purgedCount, s)"
| "purgeLoop clk (key # ks) purgedCount s =
     (case deleteAndNotifyIfKeyExpired clk key s of
        (True, s1) \<Rightarrow> purgeLoop clk ks (purgedCount + 1) s1
      | (False, s1) \<Rightarrow> purgeLoop clk ks purgedCount s1)"

definition purgeExpired ::
  "clock \<Rightarrow> ('k, 'v) LruCache \<times> ('k, 'v) world \<Rightarrow> nat \<times> ('k, 'v) LruCache \<times> ('k, 'v) world" where
  "purgeExpired clk s = purgeLoop clk (keys (fst s)) 0 s"

subsection \<open>Sequences of operations\<close>

datatype ('k, 'v) operation =
    Set 'k 'v "number optional"
  | Get 'k
  | Peek 'k
  | Has 'k
  | Delete 'k
  | Clear
  | PurgeExpired

text \<open>One call on the cache; the caller's view of the result is dropped.\<close>

fun step ::
  "clock \<Rightarrow> ('k, 'v) operation \<Rightarrow> ('k, 'v) LruCache \<times> ('k, 'v) world
     \<Rightarrow> ('k, 'v) LruCache \<times> ('k, 'v) world" where
  "step clk (Set key v itemTtlMs) s = snd (set' clk key v itemTtlMs s)"
| "step clk (Get key) s = snd (get clk key s)"
| "step clk (Peek key) s = snd (peek clk key s)"
| "step clk (Has key) s = snd (has clk key s)"
| "step clk (Delete key) s = snd (delete key s)"
| "step clk Clear s = clear s"
| "step clk PurgeExpired s = snd (purgeExpired clk s)"

fun run ::
  "clock \<Rightarrow> ('k, 'v) operation list \<Rightarrow> ('k, 'v) LruCache \<times> ('k, 'v) world
     \<Rightarrow> ('k, 'v) LruCache \<times> ('k, 'v) world" where
  "run clk [] s = s"
| "run clk (x # xs) s = run clk xs (step clk x s)"

subsection \<open>Notions the properties are stated with\<close>

text \<open>An entry is expired at a clock reading when it has an expiry strictly before it.\<close>

definition expired_at :: "int \<Rightarrow> 'v CacheEntry \<Rightarrow> bool" where
  "expired_at now e = (case expiresAt e of None \<Rightarrow> False | Some t \<Rightarrow> now > t)"

text \<open>A clock read happened: the world with one more tick.\<close>

definition tick :: "('k, 'v) world \<Rightarrow> ('k, 'v) world" where
  "tick w = w\<lparr>ticks := Suc (ticks w)\<rparr>"

text \<open>The store is well formed: no key twice, no more entries than the capacity.\<close>

definition well_formed :: "('k, 'v) LruCache \<Rightarrow> bool" where
  "well_formed c = (distinct (keys c) \<and> int (size' c) \<le> capacity c \<and> 0 < capacity c)"

text \<open>
  The sink invocations that go with a list of removed entries: all of them when a
  callback is configured, none when there is no callback to invoke.
\<close>

definition notified :: "('k, 'v) LruCache \<Rightarrow> ('k \<times> 'v) list \<Rightarrow> ('k \<times> 'v) list" where
  "notified c xs = (case onEvict (events c) of None \<Rightarrow> [] | Some f \<Rightarrow> xs)"

text \<open>What a counter gains from one counted event: one when tracking, nothing otherwise.\<close>

definition counted :: "('k, 'v) LruCache \<Rightarrow> nat \<Rightarrow> nat" where
  "counted c n = (if trackStats c then n else 0)"

subsection \<open>The sweep of \<open>purgeExpired\<close>\<close>

text \<open>
  The sweep visits the entries in the order of the store and checks each with
  \<open>#isExpired\<close>, which reads the clock once for an entry that has an expiry and not at
  all for one that has none. So the entry at position \<open>i\<close> is checked at the clock
  read whose number is the number of reads before the sweep plus the number of entries
  with an expiry before position \<open>i\<close>.
\<close>

definition check_tick :: "('k, 'v) world \<Rightarrow> ('k \<times> 'v CacheEntry) list \<Rightarrow> nat \<Rightarrow> nat" where
  "check_tick w m i = ticks w + length (filter (\<lambda>p. expiresAt (snd p) \<noteq> None) (take i m))"

definition expired_when_checked ::
  "clock \<Rightarrow> ('k, 'v) world \<Rightarrow> ('k \<times> 'v CacheEntry) list \<Rightarrow> nat \<Rightarrow> bool" where
  "expired_when_checked clk w m i = expired_at (clk (check_tick w m i)) (snd (m ! i))"

definition purged_positions ::
  "clock \<Rightarrow> ('k, 'v) world \<Rightarrow> ('k \<times> 'v CacheEntry) list \<Rightarrow> nat list" where
  "purged_positions clk w m = filter (expired_when_checked clk w m) [0..<length m]"

definition surviving_positions ::
  "clock \<Rightarrow> ('k, 'v) world \<Rightarrow> ('k \<times> 'v CacheEntry) list \<Rightarrow> nat list" where
  "surviving_positions clk w m = filter (\<lambda>i. \<not> expired_when_checked clk w m i) [0..<length m]"

text \<open>
  The same outcomes computed along the list, the number of the next clock read threaded
  through: used to follow the loop.
\<close>

fun expiry_checks :: "clock \<Rightarrow> nat \<Rightarrow> ('k \<times> 'v CacheEntry) list \<Rightarrow> bool list" where
  "expiry_checks clk t [] = []"
| "expiry_checks clk t (p # ps) =
     (case expiresAt (snd p) of
        None \<Rightarrow> False # expiry_checks clk t ps
      | Some x \<Rightarrow> (clk t > x) # expiry_checks clk (Suc t) ps)"

definition kept :: "bool list \<Rightarrow> 'a list \<Rightarrow> 'a list" where
  "kept flags m = map snd (filter (\<lambda>q. \<not> fst q) (zip flags m))"

definition dropped :: "bool list \<Rightarrow> 'a list \<Rightarrow> 'a list" where
  "dropped flags m = map snd (filter fst (zip flags m))"

subsection \<open>Concrete caches\<close>

text \<open>
  A cache of capacity 2 that tracks statistics and has a sink, holding \<open>a\<close> (the least
  recently used entry, expiring at 50) and \<open>b\<close> (no expiry); a clock that always
  reads 100, at which \<open>a\<close> is expired, and one that always reads 10, at which it is not.
\<close>

definition example_cache :: "(string, nat) LruCache" where
  "example_cache =
     \<lparr>capacity = 2,
      cache = [(''a'', \<lparr>value' = 1, expiresAt = Some 50\<rparr>),
               (''b'', \<lparr>value' = 2, expiresAt = None\<rparr>)],
      events = \<lparr>onEvict = Some (\<lambda>k v. Returns)\<rparr>,
      defaultTtl = None,
      hits = 0,
      misses = 0,
      evictions = 0,
      trackStats = True\<rparr>"

definition example_world :: "(string, nat) world" where
  "example_world = \<lparr>ticks = 0, sink_calls = [], console = []\<rparr>"

definition late_clock :: clock where
  "late_clock n = 100"

definition early_clock :: clock where
  "early_clock n = 10"

text \<open>A clock that reads 10, then 100, then 190, and so on.\<close>

definition rising_clock :: clock where
  "rising_clock n = 10 + 90 * int n"

definition example_options :: "(string, nat) LruCacheOptions" where
  "example_options =
     \<lparr>onEvict_option = Some (\<lambda>k v. Returns), trackStats_option = Some True, ttl = Undefined\<rparr>"

text \<open>The cache \<open>new LruCache(2, example_options)\<close> builds.\<close>

definition fresh_cache :: "(string, nat) LruCache" where
  "fresh_cache =
     \<lparr>capacity = 2,
      cache = [],
      events = \<lparr>onEvict = Some (\<lambda>k v. Returns)\<rparr>,
      defaultTtl = None,
      hits = 0,
      misses = 0,
      evictions = 0,
      trackStats = True\<rparr>"

subsection \<open>Two runs that differ in the sink only\<close>

text \<open>
  Two states are alike up to the sink when the caches agree on every field but the
  callback (each has one), and the worlds agree on the clock reads made and on the sink
  invocations made; what the console holds may differ.
\<close>

definition alike_up_to_sink ::
  "('k, 'v) LruCache \<times> ('k, 'v) world \<Rightarrow> ('k, 'v) LruCache \<times> ('k, 'v) world \<Rightarrow> bool" where
  "alike_up_to_sink s1 s2 =
     (capacity (fst s2) = capacity (fst s1) \<and>
      cache (fst s2) = cache (fst s1) \<and>
      defaultTtl (fst s2) = defaultTtl (fst s1) \<and>
      hits (fst s2) = hits (fst s1) \<and>
      misses (fst s2) = misses (fst s1) \<and>
      evictions (fst s2) = evictions (fst s1) \<and>
      trackStats (fst s2) = trackStats (fst s1) \<and>
      onEvict (events (fst s1)) \<noteq> None \<and>
      onEvict (events (fst s2)) \<noteq> None \<and>
      ticks (snd s2) = ticks (snd s1) \<and>
      sink_calls (snd s2) = sink_calls (snd s1))"

text \<open>The example cache with a sink that throws at every invocation.\<close>

definition faulty_cache :: "(string, nat) LruCache" where
  "faulty_cache = example_cache\<lparr>events := \<lparr>onEvict = Some (\<lambda>k v. Throws)\<rparr>\<rparr>"

section \<open>Properties\<close>

subsection \<open>The store and the expiry check\<close>

lemma Map_set_fresh: "k \<notin> fst ` set m \<Longrightarrow> Map_set k e m = m @ [(k, e)]"
  by (induction m) auto

lemma Map_delete_absent: "k \<notin> fst ` set (Map_delete k m)"
  by (auto simp: Map_delete_def)

lemma Map_set_delete: "Map_set k e (Map_delete k m) = Map_delete k m @ [(k, e)]"
  by (simp add: Map_set_fresh Map_delete_absent)

lemma Map_delete_fresh: "k \<notin> fst ` set m \<Longrightarrow> Map_delete k m = m"
  unfolding Map_delete_def by (induction m) auto

lemma Map_has_iff: "Map_has m k \<longleftrightarrow> k \<in> fst ` set m"
  by (simp add: Map_has_def map_of_eq_None_iff)

lemma Map_get_None_iff: "Map_get m k = None \<longleftrightarrow> k \<notin> fst ` set m"
  by (simp add: Map_get_def map_of_eq_None_iff)

lemma dan_absent:
  "Map_get (cache c) key = None \<Longrightarrow> deleteAndNotifyIfKeyExpired clk key (c, w) = (False, c, w)"
  by (simp add: deleteAndNotifyIfKeyExpired_def isExpired_def)

lemma dan_expired:
  "Map_get (cache c) key = Some e \<Longrightarrow> expired_at (clk (ticks w)) e \<Longrightarrow>
   deleteAndNotifyIfKeyExpired clk key (c, w) =
     (True, count_eviction (c\<lparr>cache := Map_delete key (cache c)\<rparr>),
      emitEviction (events c) key (value' e) (tick w))"
  by (auto simp: deleteAndNotifyIfKeyExpired_def isExpired_def expired_at_def Date_now_def tick_def
      split: option.splits)

lemma dan_live:
  "Map_get (cache c) key = Some e \<Longrightarrow> \<not> expired_at (clk (ticks w)) e \<Longrightarrow>
   deleteAndNotifyIfKeyExpired clk key (c, w) =
     (False, c, if expiresAt e = None then w else tick w)"
  by (auto simp: deleteAndNotifyIfKeyExpired_def isExpired_def expired_at_def Date_now_def tick_def
      split: option.splits)

lemma sink_calls_emit:
  "sink_calls (emitEviction (events c) k v w) = sink_calls w @ notified c [(k, v)]"
  by (simp add: emitEviction_def notified_def Let_def split: option.splits sink_outcome.splits)

lemma ticks_emit: "ticks (emitEviction ev k v w) = ticks w"
  by (simp add: emitEviction_def Let_def split: option.splits sink_outcome.splits)

lemma sink_calls_tick: "sink_calls (tick w) = sink_calls w"
  by (simp add: tick_def)

lemma Map_get_delete: "Map_get (Map_delete k m) k = None"
  by (simp add: Map_get_None_iff Map_delete_absent)

lemma Map_set_filter:
  "Map_set k e (filter (\<lambda>p. fst p \<noteq> k) m) = filter (\<lambda>p. fst p \<noteq> k) m @ [(k, e)]"
  using Map_set_delete[of k e m] by (simp add: Map_delete_def)

lemma set'_shape:
  assumes "set' clk key v t s = (r, c', w')"
  obtains present c1 w1 c2 w2 where
    "has clk key s = (present, c1, w1)"
    "(c2, w2) = (if \<not> present \<and> int (size' c1) \<ge> capacity c1
                 then snd (evictOldest (c1, w1)) else (c1, w1))"
    "(\<exists>msg. r = Inl (Error msg) \<and> c' = c2 \<and> w' = w2 \<and> (\<exists>n. t = Value n \<and> gt_zero n \<and> \<not> isInteger n)) \<or>
     (\<exists>ex. r = Inr () \<and> c' = setMostRecentlyUsed key v ex c2 \<and> (w' = w2 \<or> w' = tick w2))"
proof -
  obtain present c1 w1 where h: "has clk key s = (present, c1, w1)"
    by (metis prod_cases3)
  obtain c2 w2 where e: "(c2, w2) = (if \<not> present \<and> int (size' c1) \<ge> capacity c1
                 then snd (evictOldest (c1, w1)) else (c1, w1))"
    by (metis surj_pair)
  have e': "(if \<not> present \<and> int (size' c1) \<ge> capacity c1
               then (case evictOldest (c1, w1) of (_, c', w') \<Rightarrow> (c', w'))
               else (c1, w1)) = (c2, w2)"
    using e by (auto split: prod.splits)
  have "(\<exists>msg. r = Inl (Error msg) \<and> c' = c2 \<and> w' = w2 \<and> (\<exists>n. t = Value n \<and> gt_zero n \<and> \<not> isInteger n)) \<or>
     (\<exists>ex. r = Inr () \<and> c' = setMostRecentlyUsed key v ex c2 \<and> (w' = w2 \<or> w' = tick w2))"
    using assms
    apply (simp only: set'_def h prod.case e' Let_def)
    apply (cases t; cases "defaultTtl c2")
    apply (auto simp: Date_now_def tick_def split: if_splits)
    done
  with h e show thesis using that by blast
qed

lemma wf_cong: "cache c' = cache c \<Longrightarrow> capacity c' = capacity c \<Longrightarrow> well_formed c' = well_formed c"
  by (simp add: well_formed_def keys_def size'_def)

lemma count_eviction_fields [simp]:
  "cache (count_eviction c) = cache c" "capacity (count_eviction c) = capacity c"
  "hits (count_eviction c) = hits c" "misses (count_eviction c) = misses c"
  "evictions (count_eviction c) = evictions c + counted c 1"
  "events (count_eviction c) = events c" "trackStats (count_eviction c) = trackStats c"
  "defaultTtl (count_eviction c) = defaultTtl c"
  by (simp_all add: count_eviction_def counted_def)

lemma count_miss_fields [simp]:
  "cache (count_miss c) = cache c" "capacity (count_miss c) = capacity c"
  "hits (count_miss c) = hits c" "misses (count_miss c) = misses c + counted c 1"
  "evictions (count_miss c) = evictions c"
  "events (count_miss c) = events c" "trackStats (count_miss c) = trackStats c"
  "defaultTtl (count_miss c) = defaultTtl c"
  by (simp_all add: count_miss_def counted_def)

lemma count_hit_fields [simp]:
  "cache (count_hit c) = cache c" "capacity (count_hit c) = capacity c"
  "hits (count_hit c) = hits c + counted c 1" "misses (count_hit c) = misses c"
  "evictions (count_hit c) = evictions c"
  "events (count_hit c) = events c" "trackStats (count_hit c) = trackStats c"
  "defaultTtl (count_hit c) = defaultTtl c"
  by (simp_all add: count_hit_def counted_def)

lemma setMostRecentlyUsed_fields [simp]:
  "cache (setMostRecentlyUsed k v ex c) = Map_delete k (cache c) @ [(k, \<lparr>value' = v, expiresAt = ex\<rparr>)]"
  "capacity (setMostRecentlyUsed k v ex c) = capacity c"
  "hits (setMostRecentlyUsed k v ex c) = hits c" "misses (setMostRecentlyUsed k v ex c) = misses c"
  "evictions (setMostRecentlyUsed k v ex c) = evictions c"
  "events (setMostRecentlyUsed k v ex c) = events c"
  "trackStats (setMostRecentlyUsed k v ex c) = trackStats c"
  "defaultTtl (setMostRecentlyUsed k v ex c) = defaultTtl c"
  by (simp_all add: setMostRecentlyUsed_def Map_set_delete)

lemma distinct_Map_delete: "distinct (map fst m) \<Longrightarrow> distinct (map fst (Map_delete k m))"
  by (simp add: Map_delete_def distinct_map_filter)

lemma length_Map_delete_le: "length (Map_delete k m) \<le> length m"
  by (simp add: Map_delete_def)

lemma length_Map_delete_present:
  "distinct (map fst m) \<Longrightarrow> k \<in> fst ` set m \<Longrightarrow> Suc (length (Map_delete k m)) = length m"
  unfolding Map_delete_def
proof (induction m)
  case Nil
  then show ?case by simp
next
  case (Cons p m)
  show ?case
  proof (cases "fst p = k")
    case True
    with Cons.prems have "k \<notin> fst ` set m" by auto
    then have "filter (\<lambda>p. fst p \<noteq> k) m = m" by (induction m) auto
    with True show ?thesis by simp
  next
    case False
    with Cons show ?thesis by auto
  qed
qed

lemma wf_Map_delete: "well_formed c \<Longrightarrow> well_formed (c\<lparr>cache := Map_delete k (cache c)\<rparr>)"
  using length_Map_delete_le[of k "cache c"]
  by (simp add: well_formed_def keys_def size'_def distinct_Map_delete)

lemma wf_MRU_present:
  assumes "well_formed c" "key \<in> fst ` set (cache c)"
  shows "well_formed (setMostRecentlyUsed key v ex c)"
proof -
  from assms have "Suc (length (Map_delete key (cache c))) = length (cache c)"
    by (simp add: well_formed_def keys_def length_Map_delete_present)
  with assms(1) Map_delete_absent[of key "cache c"] show ?thesis
    by (simp add: well_formed_def keys_def size'_def distinct_Map_delete)
qed

lemma wf_MRU_room:
  assumes "well_formed c" "int (size' c) < capacity c"
  shows "well_formed (setMostRecentlyUsed key v ex c)"
  using assms length_Map_delete_le[of key "cache c"] Map_delete_absent[of key "cache c"]
  by (simp add: well_formed_def keys_def size'_def distinct_Map_delete)

lemma dan_cases:
  assumes "deleteAndNotifyIfKeyExpired clk key (c, w) = (b, c', w')"
  shows "(\<not> b \<and> c' = c) \<or>
         (b \<and> c' = count_eviction (c\<lparr>cache := Map_delete key (cache c)\<rparr>))"
proof (cases "Map_get (cache c) key")
  case None
  with assms show ?thesis by (simp add: dan_absent)
next
  case (Some e)
  with assms show ?thesis
    by (cases "expired_at (clk (ticks w)) e") (auto simp: dan_expired dan_live)
qed

lemma wf_dan:
  assumes "well_formed c" "deleteAndNotifyIfKeyExpired clk key (c, w) = (b, c', w')"
  shows "well_formed c' \<and> capacity c' = capacity c \<and> (b \<longrightarrow> key \<notin> fst ` set (cache c'))"
  using dan_cases[OF assms(2)] assms(1) wf_Map_delete[of c key]
  by (auto simp: wf_cong[of "count_eviction x" x for x] Map_delete_def)

lemma wf_has:
  assumes "well_formed c" "has clk key (c, w) = (b, c', w')"
  shows "well_formed c' \<and> capacity c' = capacity c \<and> (b \<longleftrightarrow> key \<in> fst ` set (cache c'))"
proof -
  obtain b1 c1 w1 where d: "deleteAndNotifyIfKeyExpired clk key (c, w) = (b1, c1, w1)"
    by (metis prod_cases3)
  from wf_dan[OF assms(1) d] assms(2) d show ?thesis
    by (cases b1) (auto simp: has_def Map_has_iff)
qed

lemma evictOldest_Cons:
  assumes "cache c = (k, e) # rest" "k \<notin> fst ` set rest"
  shows "evictOldest (c, w) =
           (Some k, count_eviction (c\<lparr>cache := rest\<rparr>), emitEviction (events c) k (value' e) w)"
  using assms by (simp add: evictOldest_def Map_delete_def Map_delete_fresh[unfolded Map_delete_def])

lemma wf_evictOldest:
  assumes "well_formed c" "cache c \<noteq> []" "evictOldest (c, w) = (r, c', w')"
  shows "well_formed c' \<and> capacity c' = capacity c \<and> int (size' c') < capacity c"
proof -
  obtain k e rest where c: "cache c = (k, e) # rest"
    using assms(2) by (cases "cache c") auto
  with assms(1) have "k \<notin> fst ` set rest" by (auto simp: well_formed_def keys_def)
  from evictOldest_Cons[OF c this, of w] assms(3)
  have "c' = count_eviction (c\<lparr>cache := rest\<rparr>)" by simp
  with assms(1) c show ?thesis by (auto simp: well_formed_def keys_def size'_def)
qed

lemma wf_set':
  assumes "well_formed c" "set' clk key v t (c, w) = (r, c', w')"
  shows "well_formed c' \<and> capacity c' = capacity c"
proof -
  from assms(2) obtain present c1 w1 c2 w2 where
    h: "has clk key (c, w) = (present, c1, w1)" and
    e: "(c2, w2) = (if \<not> present \<and> int (size' c1) \<ge> capacity c1
                 then snd (evictOldest (c1, w1)) else (c1, w1))" and
    f: "(\<exists>msg. r = Inl (Error msg) \<and> c' = c2 \<and> w' = w2 \<and> (\<exists>n. t = Value n \<and> gt_zero n \<and> \<not> isInteger n)) \<or>
     (\<exists>ex. r = Inr () \<and> c' = setMostRecentlyUsed key v ex c2 \<and> (w' = w2 \<or> w' = tick w2))"
    by (rule set'_shape)
  from wf_has[OF assms(1) h] have c1: "well_formed c1" "capacity c1 = capacity c"
    "present \<longleftrightarrow> key \<in> fst ` set (cache c1)" by auto
  have c2: "well_formed c2 \<and> capacity c2 = capacity c \<and>
            (key \<in> fst ` set (cache c2) \<or> int (size' c2) < capacity c2)"
  proof (cases "\<not> present \<and> int (size' c1) \<ge> capacity c1")
    case True
    with c1 have ne: "cache c1 \<noteq> []" by (auto simp: well_formed_def size'_def)
    obtain r0 where "evictOldest (c1, w1) = (r0, c2, w2)"
      using e True by (metis prod.collapse)
    from wf_evictOldest[OF c1(1) ne this] c1 show ?thesis by simp
  next
    case False
    with e have "c2 = c1" by auto
    with False c1 show ?thesis by auto
  qed
  from f show ?thesis
  proof
    assume "\<exists>msg. r = Inl (Error msg) \<and> c' = c2 \<and> w' = w2 \<and> (\<exists>n. t = Value n \<and> gt_zero n \<and> \<not> isInteger n)"
    with c2 show ?thesis by auto
  next
    assume "\<exists>ex. r = Inr () \<and> c' = setMostRecentlyUsed key v ex c2 \<and> (w' = w2 \<or> w' = tick w2)"
    then obtain ex where "c' = setMostRecentlyUsed key v ex c2" by auto
    with c2 wf_MRU_present[of c2 key v ex] wf_MRU_room[of c2 key v ex] show ?thesis
      by auto
  qed
qed

lemma wf_get:
  assumes "well_formed c" "get clk key (c, w) = (r, c', w')"
  shows "well_formed c' \<and> capacity c' = capacity c"
proof -
  obtain b1 c1 w1 where d: "deleteAndNotifyIfKeyExpired clk key (c, w) = (b1, c1, w1)"
    by (metis prod_cases3)
  from wf_dan[OF assms(1) d] have c1: "well_formed c1" "capacity c1 = capacity c" by auto
  show ?thesis
  proof (cases "Map_get (cache c1) key")
    case None
    with assms(2) d c1 show ?thesis
      by (cases b1) (auto simp: get_def wf_cong[of "count_miss x" x for x])
  next
    case (Some e)
    then have "key \<in> fst ` set (cache c1)" 
      using Map_get_None_iff[of "cache c1" key] by auto
    from wf_MRU_present[OF c1(1) this] Some assms(2) d c1 show ?thesis
      by (cases b1) (auto simp: get_def wf_cong[of "count_miss x" x for x] 
           wf_cong[of "count_hit x" x for x])
  qed
qed

lemma wf_peek:
  assumes "well_formed c" "peek clk key (c, w) = (r, c', w')"
  shows "well_formed c' \<and> capacity c' = capacity c"
proof -
  obtain b1 c1 w1 where d: "deleteAndNotifyIfKeyExpired clk key (c, w) = (b1, c1, w1)"
    by (metis prod_cases3)
  from wf_dan[OF assms(1) d] assms(2) d show ?thesis
    by (cases b1) (auto simp: peek_def split: option.splits)
qed

lemma wf_delete:
  assumes "well_formed c" "delete key (c, w) = (r, c', w')"
  shows "well_formed c' \<and> capacity c' = capacity c"
  using assms wf_Map_delete[of c key] by (auto simp: delete_def)

lemma wf_clear:
  assumes "well_formed c" "clear (c, w) = (c', w')"
  shows "well_formed c' \<and> capacity c' = capacity c"
  using assms by (auto simp: clear_def well_formed_def keys_def size'_def)

lemma wf_purgeLoop:
  "well_formed c \<Longrightarrow> purgeLoop clk ks n (c, w) = (r, c', w') \<Longrightarrow> well_formed c' \<and> capacity c' = capacity c"
proof (induction ks arbitrary: n c w)
  case Nil
  then show ?case by simp
next
  case (Cons k ks)
  obtain b1 c1 w1 where d: "deleteAndNotifyIfKeyExpired clk k (c, w) = (b1, c1, w1)"
    by (metis prod_cases3)
  from wf_dan[OF Cons.prems(1) d] have c1: "well_formed c1" "capacity c1 = capacity c" by auto
  from Cons.prems(2) d have "purgeLoop clk ks (if b1 then n + 1 else n) (c1, w1) = (r, c', w')"
    by (cases b1) auto
  from Cons.IH[OF c1(1) this] c1 show ?case by simp
qed

lemma wf_step:
  assumes "well_formed c" "step clk x (c, w) = (c', w')"
  shows "well_formed c' \<and> capacity c' = capacity c"
proof (cases x)
  case (Set k v t)
  with assms(2) obtain r where "set' clk k v t (c, w) = (r, c', w')"
    by (cases "set' clk k v t (c, w)") simp
  from wf_set'[OF assms(1) this] show ?thesis .
next
  case (Get k)
  with assms(2) obtain r where "get clk k (c, w) = (r, c', w')"
    by (cases "get clk k (c, w)") simp
  from wf_get[OF assms(1) this] show ?thesis .
next
  case (Peek k)
  with assms(2) obtain r where "peek clk k (c, w) = (r, c', w')"
    by (cases "peek clk k (c, w)") simp
  from wf_peek[OF assms(1) this] show ?thesis .
next
  case (Has k)
  with assms(2) obtain r where "has clk k (c, w) = (r, c', w')"
    by (cases "has clk k (c, w)") simp
  from wf_has[OF assms(1) this] show ?thesis by simp
next
  case (Delete k)
  with assms(2) obtain r where "delete k (c, w) = (r, c', w')"
    by (cases "delete k (c, w)") simp
  from wf_delete[OF assms(1) this] show ?thesis .
next
  case Clear
  with assms(2) have "clear (c, w) = (c', w')" by simp
  from wf_clear[OF assms(1) this] show ?thesis .
next
  case PurgeExpired
  with assms(2) obtain r where "purgeLoop clk (keys c) 0 (c, w) = (r, c', w')"
    by (cases "purgeExpired clk (c, w)") (simp add: purgeExpired_def)
  from wf_purgeLoop[OF assms(1) this] show ?thesis .
qed

lemma wf_constructor:
  assumes "constructor cap options = Inr c"
  shows "well_formed c \<and> cache c = [] \<and> capacity c = toInt cap"
proof -
  from assms have ok: "isInteger cap" "\<not> le_zero cap"
    by (auto simp: constructor_def split: if_splits)
  then obtain r where r: "cap = Num r" "of_int \<lfloor>r\<rfloor> = r" "0 < r" by (cases cap) auto
  then have "0 < \<lfloor>r\<rfloor>" by linarith
  with assms r show ?thesis
    by (auto simp: constructor_def well_formed_def keys_def size'_def split: if_splits)
qed

lemma wf_run:
  "well_formed c \<Longrightarrow> run clk xs (c, w) = (c', w') \<Longrightarrow> well_formed c' \<and> capacity c' = capacity c"
proof (induction xs arbitrary: c w)
  case Nil
  then show ?case by simp
next
  case (Cons x xs)
  obtain c1 w1 where s: "step clk x (c, w) = (c1, w1)" by (metis surj_pair)
  from wf_step[OF Cons.prems(1) s] have c1: "well_formed c1" "capacity c1 = capacity c" by auto
  from Cons.prems(2) s have r: "run clk xs (c1, w1) = (c', w')" by simp
  from Cons.IH[OF c1(1) r] c1 show ?case by simp
qed

lemma counted_cache_update [simp]: "counted (c\<lparr>cache := m\<rparr>) n = counted c n"
  by (simp add: counted_def)

lemma notified_cache_update [simp]: "notified (c\<lparr>cache := m\<rparr>) xs = notified c xs"
  by (simp add: notified_def)

lemma sink_calls_tick_or:
  "w' = w2 \<or> w' = tick w2 \<Longrightarrow> sink_calls w' = sink_calls w2"
  by (auto simp: tick_def)

lemma set'_at_capacity:
  assumes wf: "well_formed c"
    and absent: "\<not> Map_has (cache c) key"
    and full: "int (size' c) = capacity c"
    and res: "set' clk key v t (c, w) = (r, c', w')"
  shows "cache c \<noteq> [] \<and>
         (case r of
            Inl err \<Rightarrow> cache c' = tl (cache c)
          | Inr u \<Rightarrow> (\<exists>ex. cache c' = tl (cache c) @ [(key, \<lparr>value' = v, expiresAt = ex\<rparr>)])) \<and>
         sink_calls w' = sink_calls w @ notified c [(fst (hd (cache c)), value' (snd (hd (cache c))))] \<and>
         evictions c' = evictions c + counted c 1"
proof -
  from absent have none: "Map_get (cache c) key = None" and notin: "key \<notin> fst ` set (cache c)"
    by (simp_all add: Map_has_def Map_get_def map_of_eq_None_iff)
  then have h: "has clk key (c, w) = (False, c, w)"
    using absent by (simp add: has_def dan_absent)
  from wf full have ne: "cache c \<noteq> []" by (auto simp: well_formed_def size'_def)
  then obtain k e rest where c: "cache c = (k, e) # rest" by (cases "cache c") auto
  with wf have fresh: "k \<notin> fst ` set rest" by (auto simp: well_formed_def keys_def)
  note ev = evictOldest_Cons[OF c fresh, of w]
  from notin c have key_rest: "key \<notin> fst ` set rest" by auto
  from res obtain present c1 w1 c2 w2 where
    h': "has clk key (c, w) = (present, c1, w1)" and
    e: "(c2, w2) = (if \<not> present \<and> int (size' c1) \<ge> capacity c1
                 then snd (evictOldest (c1, w1)) else (c1, w1))" and
    f: "(\<exists>msg. r = Inl (Error msg) \<and> c' = c2 \<and> w' = w2 \<and> (\<exists>n. t = Value n \<and> gt_zero n \<and> \<not> isInteger n)) \<or>
     (\<exists>ex. r = Inr () \<and> c' = setMostRecentlyUsed key v ex c2 \<and> (w' = w2 \<or> w' = tick w2))"
    by (rule set'_shape)
  from h h' have p: "\<not> present" "c1 = c" "w1 = w" by simp_all
  with e full ev have c2: "c2 = count_eviction (c\<lparr>cache := rest\<rparr>)"
    and w2: "w2 = emitEviction (events c) k (value' e) w" by simp_all
  from f show ?thesis
  proof
    assume "\<exists>msg. r = Inl (Error msg) \<and> c' = c2 \<and> w' = w2 \<and> (\<exists>n. t = Value n \<and> gt_zero n \<and> \<not> isInteger n)"
    with c2 w2 c ne show ?thesis by (auto simp: sink_calls_emit)
  next
    assume "\<exists>ex. r = Inr () \<and> c' = setMostRecentlyUsed key v ex c2 \<and> (w' = w2 \<or> w' = tick w2)"
    then obtain ex where r: "r = Inr ()" and c': "c' = setMostRecentlyUsed key v ex c2"
      and w': "w' = w2 \<or> w' = tick w2" by auto
    from sink_calls_tick_or[OF w'] w2 have s: "sink_calls w' = sink_calls w @ notified c [(k, value' e)]"
      by (simp add: sink_calls_emit)
    from c' c2 key_rest have "cache c' = rest @ [(key, \<lparr>value' = v, expiresAt = ex\<rparr>)]"
      by (simp add: Map_delete_fresh)
    with r s c c' c2 ne show ?thesis by simp
  qed
qed

subsection \<open>Evaluation on concrete caches\<close>

lemmas model_defs =
  Map_get_def Map_has_def Map_delete_def Date_now_def emitEviction_def isExpired_def
  count_eviction_def count_miss_def count_hit_def deleteAndNotifyIfKeyExpired_def
  setMostRecentlyUsed_def get_def peek_def has_def size'_def evictOldest_def set'_def
  delete_def clear_def keys_def purgeExpired_def expired_at_def tick_def notified_def
  counted_def

lemmas example_defs =
  example_cache_def example_world_def late_clock_def early_clock_def rising_clock_def
  example_options_def fresh_cache_def faulty_cache_def

subsection \<open>Capacity bound and least-recently-used eviction\<close>

text \<open>
  Claim C1. Start from a cache the constructor returns for capacity \<open>C\<close> and run any
  sequence of \<open>set\<close>, \<open>get\<close>, \<open>peek\<close>, \<open>has\<close>, \<open>delete\<close>, \<open>clear\<close> and
  \<open>purgeExpired\<close> calls, under any clock. Then the size is at most \<open>C\<close> (every prefix
  of a sequence is a sequence, so this holds after every operation). Moreover, when
  in the state reached a \<open>set\<close> is made of a key that is not in the store while the
  size equals \<open>C\<close>, then the store was not empty and lost exactly its first entry,
  the least recently used one: what remains is the tail of the store in its order,
  followed by the new entry when \<open>set\<close> returns normally; the sink, when there is
  one, was invoked once with the key and value of that first entry; the eviction
  counter gained one when tracking; and the size is still at most \<open>C\<close>.
\<close>

theorem capacity_bound_and_lru_eviction:
  assumes "constructor cap options = Inr c0"
    and "run clk ops (c0, w0) = (c, w)"
  shows "int (size' c) \<le> capacity c0 \<and>
         (\<not> Map_has (cache c) key \<and> int (size' c) = capacity c0 \<and>
          set' clk key v t (c, w) = (r, c', w') \<longrightarrow>
            cache c \<noteq> [] \<and>
            (case r of
               Inl err \<Rightarrow> cache c' = tl (cache c)
             | Inr u \<Rightarrow> (\<exists>ex. cache c' = tl (cache c) @ [(key, \<lparr>value' = v, expiresAt = ex\<rparr>)])) \<and>
            sink_calls w' =
              sink_calls w @ notified c [(fst (hd (cache c)), value' (snd (hd (cache c))))] \<and>
            evictions c' = evictions c + counted c 1 \<and>
            int (size' c') \<le> capacity c0)"
proof -
  from wf_constructor[OF assms(1)] have "well_formed c0" by simp
  from wf_run[OF this assms(2)] have wf: "well_formed c" and cap: "capacity c = capacity c0"
    by simp_all
  from wf cap have bound: "int (size' c) \<le> capacity c0" by (simp add: well_formed_def)
  have "cache c \<noteq> [] \<and>
            (case r of
               Inl err \<Rightarrow> cache c' = tl (cache c)
             | Inr u \<Rightarrow> (\<exists>ex. cache c' = tl (cache c) @ [(key, \<lparr>value' = v, expiresAt = ex\<rparr>)])) \<and>
            sink_calls w' =
              sink_calls w @ notified c [(fst (hd (cache c)), value' (snd (hd (cache c))))] \<and>
            evictions c' = evictions c + counted c 1 \<and>
            int (size' c') \<le> capacity c0"
    if a: "\<not> Map_has (cache c) key" and f: "int (size' c) = capacity c0"
      and s: "set' clk key v t (c, w) = (r, c', w')"
  proof -
    from f cap have f': "int (size' c) = capacity c" by simp
    from wf_set'[OF wf s] cap have "int (size' c') \<le> capacity c0" by (simp add: well_formed_def)
    with set'_at_capacity[OF wf a f' s] show ?thesis by simp
  qed
  with bound show ?thesis by blast
qed

theorem capacity_bound_and_lru_eviction_witness:
  "constructor (Num 2) (Some example_options) = Inr fresh_cache \<and>
   run early_clock [Set ''a'' 1 (Value (Num 40)), Set ''b'' 2 Null] (fresh_cache, example_world)
     = (example_cache, example_world\<lparr>ticks := 1\<rparr>) \<and>
   \<not> Map_has (cache example_cache) ''c'' \<and>
   int (size' example_cache) = capacity fresh_cache \<and>
   set' early_clock ''c'' 3 Undefined (example_cache, example_world\<lparr>ticks := 1\<rparr>)
     = (Inr (),
        example_cache\<lparr>cache := [(''b'', \<lparr>value' = 2, expiresAt = None\<rparr>),
                                (''c'', \<lparr>value' = 3, expiresAt = None\<rparr>)],
                      evictions := 1\<rparr>,
        \<lparr>ticks = 1, sink_calls = [(''a'', 1)], console = []\<rparr>) \<and>
   int (size' example_cache) \<le> capacity fresh_cache \<and>
   sink_calls \<lparr>ticks = 1, sink_calls = [(''a'', 1::nat)], console = []\<rparr>
     = sink_calls (example_world\<lparr>ticks := 1\<rparr>) @
       notified example_cache
         [(fst (hd (cache example_cache)), value' (snd (hd (cache example_cache))))]"
proof -
  have h1: "constructor (Num 2) (Some example_options) = Inr fresh_cache"
    by (simp add: constructor_def example_defs)
  have h2: "run early_clock [Set ''a'' 1 (Value (Num 40)), Set ''b'' 2 Null]
              (fresh_cache, example_world) = (example_cache, example_world\<lparr>ticks := 1\<rparr>)"
    by (simp add: model_defs example_defs)
  have h3: "\<not> Map_has (cache example_cache) ''c''"
    by (simp add: model_defs example_defs)
  have h4: "int (size' example_cache) = capacity fresh_cache"
    by (simp add: model_defs example_defs)
  have h5: "set' early_clock ''c'' 3 Undefined (example_cache, example_world\<lparr>ticks := 1\<rparr>)
     = (Inr (),
        example_cache\<lparr>cache := [(''b'', \<lparr>value' = 2, expiresAt = None\<rparr>),
                                (''c'', \<lparr>value' = 3, expiresAt = None\<rparr>)],
                      evictions := 1\<rparr>,
        \<lparr>ticks = 1, sink_calls = [(''a'', 1)], console = []\<rparr>)"
    by (simp add: model_defs example_defs)
  from capacity_bound_and_lru_eviction[OF h1 h2, of "''c''" 3 Undefined] h3 h4 h5
  have "int (size' example_cache) \<le> capacity fresh_cache"
    and "sink_calls \<lparr>ticks = 1, sink_calls = [(''a'', 1::nat)], console = []\<rparr>
     = sink_calls (example_world\<lparr>ticks := 1\<rparr>) @
       notified example_cache
         [(fst (hd (cache example_cache)), value' (snd (hd (cache example_cache))))]"
    by blast+
  with h1 h2 h3 h4 h5 show ?thesis by blast
qed

subsection \<open>Reading with \<open>get\<close>\<close>

text \<open>
  Claim C4. Let the clock read by \<open>get(key)\<close> be the current one. If the store holds
  an entry for the key that has no expiry or is not expired at that reading, \<open>get\<close>
  returns the stored value, the entry itself (same value, same expiry) becomes the last
  entry of the store while the other entries keep their order, and the hit counter gains
  one when tracking (nothing otherwise), the miss counter staying as it was. If the key
  is absent, or its entry is expired at that reading, \<open>get\<close> returns absent and the
  miss counter gains one when tracking, the hit counter staying as it was.
\<close>

theorem get_spec:
  "get clk key (c, w) = (r, c', w') \<Longrightarrow>
     (case Map_get (cache c) key of
        None \<Rightarrow>
          r = None \<and> misses c' = misses c + counted c 1 \<and> hits c' = hits c \<and>
          cache c' = cache c
      | Some e \<Rightarrow>
          (if expired_at (clk (ticks w)) e
           then r = None \<and> misses c' = misses c + counted c 1 \<and> hits c' = hits c
           else r = Some (value' e) \<and>
                cache c' = filter (\<lambda>p. fst p \<noteq> key) (cache c) @ [(key, e)] \<and>
                hits c' = hits c + counted c 1 \<and> misses c' = misses c))"
proof (cases "Map_get (cache c) key")
  case None
  assume "get clk key (c, w) = (r, c', w')"
  with None show ?thesis by (auto simp: get_def dan_absent count_miss_def counted_def)
next
  case (Some e)
  assume p: "get clk key (c, w) = (r, c', w')"
  show ?thesis
  proof (cases "expired_at (clk (ticks w)) e")
    case True
    with Some p show ?thesis
      by (auto simp: get_def dan_expired count_eviction_def count_miss_def counted_def)
  next
    case False
    with Some p show ?thesis
      by (auto simp: get_def dan_live count_hit_def counted_def setMostRecentlyUsed_def
          Map_delete_def Map_set_filter)
  qed
qed

theorem get_spec_witness:
  "Map_get (cache example_cache) ''a'' = Some \<lparr>value' = 1, expiresAt = Some 50\<rparr> \<and>
   \<not> expired_at (early_clock (ticks example_world)) \<lparr>value' = 1::nat, expiresAt = Some 50\<rparr> \<and>
   get early_clock ''a'' (example_cache, example_world)
     = (Some 1,
        example_cache\<lparr>cache := [(''b'', \<lparr>value' = 2, expiresAt = None\<rparr>),
                                (''a'', \<lparr>value' = 1, expiresAt = Some 50\<rparr>)],
                      hits := 1\<rparr>,
        example_world\<lparr>ticks := 1\<rparr>) \<and>
   hits (example_cache\<lparr>cache := [(''b'', \<lparr>value' = 2, expiresAt = None\<rparr>),
                                (''a'', \<lparr>value' = 1, expiresAt = Some 50\<rparr>)],
                      hits := 1\<rparr>)
     = hits example_cache + counted example_cache 1"
proof -
  have h0: "Map_get (cache example_cache) ''a'' = Some \<lparr>value' = 1, expiresAt = Some 50\<rparr>"
    by (simp add: model_defs example_defs)
  have h1: "\<not> expired_at (early_clock (ticks example_world)) \<lparr>value' = 1::nat, expiresAt = Some 50\<rparr>"
    by (simp add: model_defs example_defs)
  have h2: "get early_clock ''a'' (example_cache, example_world)
     = (Some 1,
        example_cache\<lparr>cache := [(''b'', \<lparr>value' = 2, expiresAt = None\<rparr>),
                                (''a'', \<lparr>value' = 1, expiresAt = Some 50\<rparr>)],
                      hits := 1\<rparr>,
        example_world\<lparr>ticks := 1\<rparr>)"
    by (simp add: model_defs example_defs)
  from get_spec[OF h2] h0 h1 h2 show ?thesis by simp
qed

subsection \<open>Reading with \<open>peek\<close>\<close>

text \<open>
  Claim C5. \<open>peek(key)\<close> never changes the hit and miss counters. When the key is
  absent, or its entry is not expired at the clock reading of the call, the cache is
  unchanged (so is the recency order) and the sink is not invoked. When the entry is
  expired at that reading, \<open>peek\<close> returns absent, the store loses the entries of
  that key and keeps the others in their order, the sink (when there is one) is invoked
  with the key and the stored value, and the eviction counter gains one when tracking.
\<close>

theorem peek_spec:
  "peek clk key (c, w) = (r, c', w') \<Longrightarrow>
     hits c' = hits c \<and> misses c' = misses c \<and>
     (case Map_get (cache c) key of
        None \<Rightarrow> r = None \<and> c' = c \<and> w' = w
      | Some e \<Rightarrow>
          (if expired_at (clk (ticks w)) e
           then r = None \<and>
                cache c' = filter (\<lambda>p. fst p \<noteq> key) (cache c) \<and>
                sink_calls w' = sink_calls w @ notified c [(key, value' e)] \<and>
                evictions c' = evictions c + counted c 1
           else r = Some (value' e) \<and> c' = c \<and> sink_calls w' = sink_calls w))"
proof (cases "Map_get (cache c) key")
  case None
  assume "peek clk key (c, w) = (r, c', w')"
  with None show ?thesis by (simp add: peek_def dan_absent)
next
  case (Some e)
  assume p: "peek clk key (c, w) = (r, c', w')"
  show ?thesis
  proof (cases "expired_at (clk (ticks w)) e")
    case True
    with Some p show ?thesis
      by (auto simp: peek_def dan_expired count_eviction_def counted_def sink_calls_emit
          sink_calls_tick Map_delete_def)
  next
    case False
    with Some p show ?thesis
      by (auto simp: peek_def dan_live sink_calls_tick)
  qed
qed

theorem peek_spec_witness:
  "Map_get (cache example_cache) ''a'' = Some \<lparr>value' = 1, expiresAt = Some 50\<rparr> \<and>
   expired_at (late_clock (ticks example_world)) \<lparr>value' = 1::nat, expiresAt = Some 50\<rparr> \<and>
   peek late_clock ''a'' (example_cache, example_world)
     = (None,
        example_cache\<lparr>cache := [(''b'', \<lparr>value' = 2, expiresAt = None\<rparr>)], evictions := 1\<rparr>,
        \<lparr>ticks = 1, sink_calls = [(''a'', 1)], console = []\<rparr>) \<and>
   hits (example_cache\<lparr>cache := [(''b'', \<lparr>value' = 2, expiresAt = None\<rparr>)], evictions := 1\<rparr>)
     = hits example_cache \<and>
   misses (example_cache\<lparr>cache := [(''b'', \<lparr>value' = 2, expiresAt = None\<rparr>)], evictions := 1\<rparr>)
     = misses example_cache \<and>
   sink_calls \<lparr>ticks = 1, sink_calls = [(''a'', 1::nat)], console = []\<rparr>
     = sink_calls example_world @ notified example_cache [(''a'', 1)]"
proof -
  have h0: "Map_get (cache example_cache) ''a'' = Some \<lparr>value' = 1, expiresAt = Some 50\<rparr>"
    by (simp add: model_defs example_defs)
  have h1: "expired_at (late_clock (ticks example_world)) \<lparr>value' = 1::nat, expiresAt = Some 50\<rparr>"
    by (simp add: model_defs example_defs)
  have h2: "peek late_clock ''a'' (example_cache, example_world)
     = (None,
        example_cache\<lparr>cache := [(''b'', \<lparr>value' = 2, expiresAt = None\<rparr>)], evictions := 1\<rparr>,
        \<lparr>ticks = 1, sink_calls = [(''a'', 1)], console = []\<rparr>)"
    by (simp add: model_defs example_defs)
  from peek_spec[OF h2] h0 h1 h2 show ?thesis by simp
qed

subsection \<open>Removing with \<open>delete\<close>\<close>

text \<open>
  Claim C10. \<open>delete(key)\<close> reads no clock and checks no expiry. The world (clock
  reads, sink invocations, console) and the three counters are unchanged in every case.
  For a key the store holds, whatever the expiry of its entry, \<open>delete\<close> returns true
  and the store has no entry for the key afterwards, the other entries keeping their
  order; for a key the store does not hold, it returns false and the cache is unchanged.
\<close>

theorem delete_spec:
  "delete key (c, w) = (r, c', w') \<Longrightarrow>
     w' = w \<and> hits c' = hits c \<and> misses c' = misses c \<and> evictions c' = evictions c \<and>
     (case Map_get (cache c) key of
        Some e \<Rightarrow>
          r \<and> Map_get (cache c') key = None \<and>
          c' = c\<lparr>cache := filter (\<lambda>p. fst p \<noteq> key) (cache c)\<rparr>
      | None \<Rightarrow> \<not> r \<and> c' = c)"
proof (cases "Map_get (cache c) key")
  case None
  assume "delete key (c, w) = (r, c', w')"
  moreover from None have "key \<notin> fst ` set (cache c)" by (simp add: Map_get_None_iff)
  ultimately show ?thesis using None
    by (auto simp: delete_def Map_has_iff Map_delete_fresh)
next
  case (Some e)
  assume d: "delete key (c, w) = (r, c', w')"
  from Some have "Map_has (cache c) key" by (simp add: Map_has_def Map_get_def)
  with d Some show ?thesis
    using Map_get_delete[of key "cache c"]
    by (auto simp: delete_def Map_delete_def)
qed

theorem delete_spec_witness:
  "Map_get (cache example_cache) ''a'' = Some \<lparr>value' = 1, expiresAt = Some 50\<rparr> \<and>
   expired_at (late_clock 0) \<lparr>value' = 1::nat, expiresAt = Some 50\<rparr> \<and>
   delete ''a'' (example_cache, example_world)
     = (True, example_cache\<lparr>cache := [(''b'', \<lparr>value' = 2, expiresAt = None\<rparr>)]\<rparr>,
        example_world) \<and>
   evictions (example_cache\<lparr>cache := [(''b'', \<lparr>value' = 2, expiresAt = None\<rparr>)]\<rparr>)
     = evictions example_cache \<and>
   Map_get (cache (example_cache\<lparr>cache := [(''b'', \<lparr>value' = 2, expiresAt = None\<rparr>)]\<rparr>)) ''a''
     = None"
proof -
  have h0: "Map_get (cache example_cache) ''a'' = Some \<lparr>value' = 1, expiresAt = Some 50\<rparr>"
    by (simp add: model_defs example_defs)
  have h1: "expired_at (late_clock 0) \<lparr>value' = 1::nat, expiresAt = Some 50\<rparr>"
    by (simp add: model_defs example_defs)
  have h2: "delete ''a'' (example_cache, example_world)
     = (True, example_cache\<lparr>cache := [(''b'', \<lparr>value' = 2, expiresAt = None\<rparr>)]\<rparr>,
        example_world)"
    by (simp add: model_defs example_defs)
  from delete_spec[OF h2] h0 h1 h2 show ?thesis by (simp add: model_defs example_defs)
qed

subsection \<open>\<open>set\<close> on a key whose entry is expired\<close>

lemma floor_three_halves [simp]: "\<lfloor>3 / 2 :: rat\<rfloor> = 1"
  by (rule floor_unique) simp_all

lemma set'_expired_key:
  assumes wf: "well_formed c"
    and present: "Map_get (cache c) key = Some e"
    and expired: "expired_at (clk (ticks w)) e"
    and res: "set' clk key v t (c, w) = (r, c', w')"
    and ok: "r = Inr ()"
  shows "(\<exists>ex. cache c' =
            filter (\<lambda>p. fst p \<noteq> key) (cache c) @ [(key, \<lparr>value' = v, expiresAt = ex\<rparr>)]) \<and>
         sink_calls w' = sink_calls w @ notified c [(key, value' e)] \<and>
         evictions c' = evictions c + counted c 1 \<and>
         hits c' = hits c \<and> misses c' = misses c"
proof -
  let ?c1 = "count_eviction (c\<lparr>cache := Map_delete key (cache c)\<rparr>)"
  let ?w1 = "emitEviction (events c) key (value' e) (tick w)"
  from present have mem: "key \<in> fst ` set (cache c)"
    using Map_get_None_iff[of "cache c" key] by auto
  from dan_expired[of c key e clk w, OF present expired]
  have h: "has clk key (c, w) = (False, ?c1, ?w1)" by (simp add: has_def)
  from wf mem have "Suc (length (Map_delete key (cache c))) = length (cache c)"
    by (simp add: well_formed_def keys_def length_Map_delete_present)
  with wf have room: "\<not> int (size' ?c1) \<ge> capacity ?c1"
    by (simp add: well_formed_def size'_def)
  from res obtain present' c1 w1 c2 w2 where
    h': "has clk key (c, w) = (present', c1, w1)" and
    e: "(c2, w2) = (if \<not> present' \<and> int (size' c1) \<ge> capacity c1
                 then snd (evictOldest (c1, w1)) else (c1, w1))" and
    f: "(\<exists>msg. r = Inl (Error msg) \<and> c' = c2 \<and> w' = w2 \<and> (\<exists>n. t = Value n \<and> gt_zero n \<and> \<not> isInteger n)) \<or>
     (\<exists>ex. r = Inr () \<and> c' = setMostRecentlyUsed key v ex c2 \<and> (w' = w2 \<or> w' = tick w2))"
    by (rule set'_shape)
  from h h' have "c1 = ?c1" "w1 = ?w1" by simp_all
  with e room have c2: "c2 = ?c1" and w2: "w2 = ?w1" by simp_all
  from f ok obtain ex where c': "c' = setMostRecentlyUsed key v ex c2"
    and w': "w' = w2 \<or> w' = tick w2" by auto
  from sink_calls_tick_or[OF w'] w2
  have s: "sink_calls w' = sink_calls w @ notified c [(key, value' e)]"
    by (simp add: sink_calls_emit sink_calls_tick)
  from c' c2 have "cache c' = Map_delete key (cache c) @ [(key, \<lparr>value' = v, expiresAt = ex\<rparr>)]"
    by (simp add: Map_delete_fresh Map_delete_absent)
  then have "\<exists>ex. cache c' =
            filter (\<lambda>p. fst p \<noteq> key) (cache c) @ [(key, \<lparr>value' = v, expiresAt = ex\<rparr>)]"
    by (auto simp: Map_delete_def)
  with s c' c2 show ?thesis by simp
qed

text \<open>
  Claim C9, as amended. In any state reached from a constructed cache, let the store
  hold an entry for the key that is expired at the clock reading of the call, and let
  \<open>set(key, value, itemTtl)\<close> return normally. Then the store afterwards is the old
  store without the entries of that key, in its order, followed by the new entry (the
  given value, with the expiry the call computed); the sink, when there is one, was
  invoked with the key and the old value; the eviction counter gained one when
  tracking; hits and misses are unchanged. What a call that fails leaves behind is not
  part of this statement.
\<close>

theorem set_cleans_expired_key:
  assumes "constructor cap options = Inr c0"
    and "run clk ops (c0, w0) = (c, w)"
    and "Map_get (cache c) key = Some e"
    and "expired_at (clk (ticks w)) e"
    and "set' clk key v t (c, w) = (Inr (), c', w')"
  shows "(\<exists>ex. cache c' =
            filter (\<lambda>p. fst p \<noteq> key) (cache c) @ [(key, \<lparr>value' = v, expiresAt = ex\<rparr>)]) \<and>
         sink_calls w' = sink_calls w @ notified c [(key, value' e)] \<and>
         evictions c' = evictions c + counted c 1 \<and>
         hits c' = hits c \<and> misses c' = misses c"
proof -
  from wf_constructor[OF assms(1)] have "well_formed c0" by simp
  from wf_run[OF this assms(2)] have "well_formed c" by simp
  from set'_expired_key[of c key e clk w v t "Inr ()" c' w', OF this assms(3) assms(4) assms(5)]
  show ?thesis by simp
qed

theorem set_cleans_expired_key_witness:
  "constructor (Num 2) (Some example_options) = Inr fresh_cache \<and>
   run rising_clock [Set ''a'' 1 (Value (Num 40)), Set ''b'' 2 Null] (fresh_cache, example_world)
     = (example_cache, example_world\<lparr>ticks := 1\<rparr>) \<and>
   Map_get (cache example_cache) ''a'' = Some \<lparr>value' = 1, expiresAt = Some 50\<rparr> \<and>
   expired_at (rising_clock (ticks (example_world\<lparr>ticks := 1\<rparr>)))
     \<lparr>value' = 1::nat, expiresAt = Some 50\<rparr> \<and>
   set' rising_clock ''a'' 7 (Value (Num 5)) (example_cache, example_world\<lparr>ticks := 1\<rparr>)
     = (Inr (),
        example_cache\<lparr>cache := [(''b'', \<lparr>value' = 2, expiresAt = None\<rparr>),
                                (''a'', \<lparr>value' = 7, expiresAt = Some 195\<rparr>)],
                      evictions := 1\<rparr>,
        \<lparr>ticks = 3, sink_calls = [(''a'', 1)], console = []\<rparr>) \<and>
   sink_calls \<lparr>ticks = 3, sink_calls = [(''a'', 1::nat)], console = []\<rparr>
     = sink_calls (example_world\<lparr>ticks := 1\<rparr>) @ notified example_cache [(''a'', 1)]"
proof -
  have h1: "constructor (Num 2) (Some example_options) = Inr fresh_cache"
    by (simp add: constructor_def example_defs)
  have h2: "run rising_clock [Set ''a'' 1 (Value (Num 40)), Set ''b'' 2 Null]
              (fresh_cache, example_world) = (example_cache, example_world\<lparr>ticks := 1\<rparr>)"
    by (simp add: model_defs example_defs)
  have h3: "Map_get (cache example_cache) ''a'' = Some \<lparr>value' = 1, expiresAt = Some 50\<rparr>"
    by (simp add: model_defs example_defs)
  have h4: "expired_at (rising_clock (ticks (example_world\<lparr>ticks := 1\<rparr>)))
              \<lparr>value' = 1::nat, expiresAt = Some 50\<rparr>"
    by (simp add: model_defs example_defs)
  have h5: "set' rising_clock ''a'' 7 (Value (Num 5)) (example_cache, example_world\<lparr>ticks := 1\<rparr>)
     = (Inr (),
        example_cache\<lparr>cache := [(''b'', \<lparr>value' = 2, expiresAt = None\<rparr>),
                                (''a'', \<lparr>value' = 7, expiresAt = Some 195\<rparr>)],
                      evictions := 1\<rparr>,
        \<lparr>ticks = 3, sink_calls = [(''a'', 1)], console = []\<rparr>)"
    by (simp add: model_defs example_defs)
  from set_cleans_expired_key[OF h1 h2 h3 h4 h5] h1 h2 h3 h4 h5 show ?thesis
    by (simp add: model_defs example_defs)
qed

text \<open>
  Claim C9 as first stated, for every call, fails: with an expired entry for \<open>a\<close> in
  the store, \<open>set(a, 7, 1.5)\<close> removes the expired entry and notifies the sink, then
  throws; no entry for \<open>a\<close> is inserted.
\<close>

theorem set_expired_key_counterexample:
  "Map_get (cache example_cache) ''a'' = Some \<lparr>value' = 1, expiresAt = Some 50\<rparr> \<and>
   expired_at (late_clock (ticks example_world)) \<lparr>value' = 1::nat, expiresAt = Some 50\<rparr> \<and>
   set' late_clock ''a'' 7 (Value (Num (3 / 2))) (example_cache, example_world)
     = (Inl (Error ''Item TTL must be a positive integer if specified''),
        example_cache\<lparr>cache := [(''b'', \<lparr>value' = 2, expiresAt = None\<rparr>)], evictions := 1\<rparr>,
        \<lparr>ticks = 1, sink_calls = [(''a'', 1)], console = []\<rparr>) \<and>
   \<not> Map_has [(''b'', \<lparr>value' = 2::nat, expiresAt = None\<rparr>)] ''a''"
  by (simp add: model_defs example_defs)

subsection \<open>The per-item TTL of \<open>set\<close>\<close>

text \<open>
  Claim C2 at the inputs where the code departs from it: \<open>set\<close> with a per-item
  TTL of 0, with one of -5 and with \<open>NaN\<close> returns normally and stores the entry (here
  with no expiry, the cache having no default TTL). The test \<open>itemTtlMs > 0\<close> sends every
  number that is not positive to the branch of the default TTL, before the integer
  check is reached.
\<close>

theorem set_nonpositive_ttl_accepted:
  "set' early_clock ''c'' 3 (Value (Num 0)) (fresh_cache, example_world)
     = (Inr (), fresh_cache\<lparr>cache := [(''c'', \<lparr>value' = 3, expiresAt = None\<rparr>)]\<rparr>, example_world) \<and>
   set' early_clock ''c'' 3 (Value (Num (- 5))) (fresh_cache, example_world)
     = (Inr (), fresh_cache\<lparr>cache := [(''c'', \<lparr>value' = 3, expiresAt = None\<rparr>)]\<rparr>, example_world) \<and>
   set' early_clock ''c'' 3 (Value NaN) (fresh_cache, example_world)
     = (Inr (), fresh_cache\<lparr>cache := [(''c'', \<lparr>value' = 3, expiresAt = None\<rparr>)]\<rparr>, example_world)"
  by (simp add: model_defs example_defs)

text \<open>
  Claim C3 at an input where the code departs from it: the cache is full (capacity 2,
  entries \<open>a\<close> and \<open>b\<close>), and \<open>set(c, 3, 1.5)\<close> fails with the error of the
  per-item TTL. By then the least recently used entry \<open>a\<close> has been evicted, the sink
  has been invoked with it and the eviction counter has gone from 0 to 1.
\<close>

theorem set_fails_after_eviction:
  "set' early_clock ''c'' 3 (Value (Num (3 / 2))) (example_cache, example_world)
     = (Inl (Error ''Item TTL must be a positive integer if specified''),
        example_cache\<lparr>cache := [(''b'', \<lparr>value' = 2, expiresAt = None\<rparr>)], evictions := 1\<rparr>,
        \<lparr>ticks = 0, sink_calls = [(''a'', 1)], console = []\<rparr>) \<and>
   cache example_cache = [(''a'', \<lparr>value' = 1, expiresAt = Some 50\<rparr>),
                          (''b'', \<lparr>value' = 2, expiresAt = None\<rparr>)] \<and>
   evictions example_cache = 0 \<and>
   sink_calls example_world = []"
  by (simp add: model_defs example_defs)

subsection \<open>The sweep of \<open>purgeExpired\<close>\<close>

lemma kept_Nil [simp]: "kept [] m = []" "kept fl [] = []"
  by (simp_all add: kept_def)

lemma dropped_Nil [simp]: "dropped [] m = []" "dropped fl [] = []"
  by (simp_all add: dropped_def)

lemma kept_Cons [simp]: "kept (b # fl) (p # m) = (if b then kept fl m else p # kept fl m)"
  by (simp add: kept_def)

lemma dropped_Cons [simp]: "dropped (b # fl) (p # m) = (if b then p # dropped fl m else dropped fl m)"
  by (simp add: dropped_def)

lemma length_expiry_checks [simp]: "length (expiry_checks clk t m) = length m"
  by (induction m arbitrary: t) (auto split: option.splits)

lemma Map_get_middle:
  "k \<notin> fst ` set pre \<Longrightarrow> Map_get (pre @ (k, e) # rest) k = Some e"
  by (induction pre) (auto simp: Map_get_def)

lemma Map_delete_middle:
  "k \<notin> fst ` set pre \<Longrightarrow> k \<notin> fst ` set rest \<Longrightarrow>
   Map_delete k (pre @ (k, e) # rest) = pre @ rest"
  using Map_delete_fresh[of k pre] Map_delete_fresh[of k rest]
  by (simp add: Map_delete_def)

lemma notified_append: "notified c (xs @ ys) = notified c xs @ notified c ys"
  by (simp add: notified_def split: option.splits)

lemma notified_cong:
  "events c' = events c \<Longrightarrow> notified c' xs = notified c xs"
  by (simp add: notified_def)

lemma counted_cong: "trackStats c' = trackStats c \<Longrightarrow> counted c' n = counted c n"
  by (simp add: counted_def)

lemma counted_add: "counted c (m + n) = counted c m + counted c n"
  by (simp add: counted_def)

lemma purgeLoop_sweep:
  "distinct (map fst (pre @ suf)) \<Longrightarrow> cache c = pre @ suf \<Longrightarrow>
   purgeLoop clk (map fst suf) n (c, w) = (n', c', w') \<Longrightarrow>
   cache c' = pre @ kept (expiry_checks clk (ticks w) suf) suf \<and>
   n' = n + length (dropped (expiry_checks clk (ticks w) suf) suf) \<and>
   sink_calls w' = sink_calls w @
      notified c (map (\<lambda>p. (fst p, value' (snd p))) (dropped (expiry_checks clk (ticks w) suf) suf)) \<and>
   evictions c' = evictions c + counted c (length (dropped (expiry_checks clk (ticks w) suf) suf)) \<and>
   hits c' = hits c \<and> misses c' = misses c \<and> events c' = events c \<and>
   trackStats c' = trackStats c"
proof (induction suf arbitrary: pre n c w)
  case Nil
  then show ?case by (simp add: notified_def counted_def split: option.splits)
next
  case (Cons p rest)
  obtain k e where p: "p = (k, e)" by (cases p)
  from Cons.prems(1) p have k_pre: "k \<notin> fst ` set pre" and k_rest: "k \<notin> fst ` set rest"
    by auto
  from Cons.prems(2) p have g: "Map_get (cache c) k = Some e"
    by (simp add: Map_get_middle[OF k_pre])
  show ?case
  proof (cases "expired_at (clk (ticks w)) e")
    case True
    then obtain x where x: "expiresAt e = Some x" "clk (ticks w) > x"
      by (auto simp: expired_at_def split: option.splits)
    let ?c1 = "count_eviction (c\<lparr>cache := Map_delete k (cache c)\<rparr>)"
    let ?w1 = "emitEviction (events c) k (value' e) (tick w)"
    from dan_expired[of c k e clk w, OF g True] Cons.prems(3) p
    have loop: "purgeLoop clk (map fst rest) (n + 1) (?c1, ?w1) = (n', c', w')" by simp
    from Cons.prems(2) p have c1: "cache ?c1 = pre @ rest"
      by (simp add: Map_delete_middle[OF k_pre k_rest])
    from Cons.prems(1) p have d: "distinct (map fst (pre @ rest))" by simp
    have t: "ticks ?w1 = Suc (ticks w)" by (simp add: ticks_emit tick_def)
    have n: "notified ?c1 = notified c" by (rule ext) (simp add: notified_def)
    have cn: "counted ?c1 = counted c" by (rule ext) (simp add: counted_def)
    from Cons.IH[OF d c1 loop] p x show ?thesis
      by (simp add: t n cn sink_calls_emit sink_calls_tick notified_append[symmetric] counted_def)
  next
    case False
    let ?w1 = "if expiresAt e = None then w else tick w"
    from dan_live[of c k e clk w, OF g False] Cons.prems(3) p
    have loop: "purgeLoop clk (map fst rest) n (c, ?w1) = (n', c', w')" by simp
    from Cons.prems(2) p have c1: "cache c = (pre @ [(k, e)]) @ rest" by simp
    from Cons.prems(1) p have d: "distinct (map fst ((pre @ [(k, e)]) @ rest))" by simp
    from Cons.IH[OF d c1 loop] p False show ?thesis
      by (auto simp: expired_at_def tick_def split: option.splits)
  qed
qed

lemma expiry_checks_nth:
  "i < length m \<Longrightarrow>
   expiry_checks clk t m ! i =
     expired_at (clk (t + length (filter (\<lambda>p. expiresAt (snd p) \<noteq> None) (take i m)))) (snd (m ! i))"
proof (induction m arbitrary: t i)
  case Nil
  then show ?case by simp
next
  case (Cons p m)
  show ?case
  proof (cases i)
    case 0
    then show ?thesis by (simp add: expired_at_def split: option.splits)
  next
    case (Suc j)
    with Cons.prems have "j < length m" by simp
    from Cons.IH[OF this] Suc show ?thesis by (simp split: option.splits)
  qed
qed

lemma upt_0_Suc: "[0..<Suc n] = 0 # map Suc [0..<n]"
proof -
  have "[0..<Suc n] = 0 # [Suc 0..<Suc n]" by (rule upt_conv_Cons) simp
  then show ?thesis by (simp only: map_Suc_upt)
qed

lemma kept_positions:
  "length fl = length m \<Longrightarrow> kept fl m = map ((!) m) (filter (\<lambda>i. \<not> fl ! i) [0..<length m])"
proof (induction fl m rule: list_induct2)
  case Nil
  then show ?case by simp
next
  case (Cons b fl p m)
  then show ?case
    by (simp add: upt_0_Suc filter_map o_def del: upt_Suc)
qed

lemma dropped_positions:
  "length fl = length m \<Longrightarrow> dropped fl m = map ((!) m) (filter (\<lambda>i. fl ! i) [0..<length m])"
proof (induction fl m rule: list_induct2)
  case Nil
  then show ?case by simp
next
  case (Cons b fl p m)
  then show ?case
    by (simp add: upt_0_Suc filter_map o_def del: upt_Suc)
qed

lemma kept_expiry_checks:
  "kept (expiry_checks clk (ticks w) m) m = map ((!) m) (surviving_positions clk w m)"
proof -
  have "filter (\<lambda>i. \<not> expiry_checks clk (ticks w) m ! i) [0..<length m] =
        surviving_positions clk w m"
    unfolding surviving_positions_def
    by (rule filter_cong) (simp_all add: expiry_checks_nth expired_when_checked_def check_tick_def)
  then show ?thesis by (simp add: kept_positions)
qed

lemma dropped_expiry_checks:
  "dropped (expiry_checks clk (ticks w) m) m = map ((!) m) (purged_positions clk w m)"
proof -
  have "filter (\<lambda>i. expiry_checks clk (ticks w) m ! i) [0..<length m] =
        purged_positions clk w m"
    unfolding purged_positions_def
    by (rule filter_cong) (simp_all add: expiry_checks_nth expired_when_checked_def check_tick_def)
  then show ?thesis by (simp add: dropped_positions)
qed

lemma positions_partition:
  "length (surviving_positions clk w m) + length (purged_positions clk w m) = length m"
  using sum_length_filter_compl[of "expired_when_checked clk w m" "[0..<length m]"]
  by (simp add: surviving_positions_def purged_positions_def)

lemma purgeExpired_sweep:
  assumes "distinct (keys c)" "purgeExpired clk (c, w) = (n, c', w')"
  shows "cache c' = map ((!) (cache c)) (surviving_positions clk w (cache c)) \<and>
         n = length (purged_positions clk w (cache c)) \<and>
         sink_calls w' = sink_calls w @
           notified c (map (\<lambda>i. (fst (cache c ! i), value' (snd (cache c ! i))))
                        (purged_positions clk w (cache c))) \<and>
         evictions c' = evictions c + counted c n \<and>
         hits c' = hits c \<and> misses c' = misses c"
proof -
  from assms(1) have d: "distinct (map fst ([] @ cache c))" by (simp add: keys_def)
  have e: "cache c = [] @ cache c" by simp
  from assms(2) have l: "purgeLoop clk (map fst (cache c)) 0 (c, w) = (n, c', w')"
    by (simp add: purgeExpired_def keys_def)
  from purgeLoop_sweep[OF d e l] show ?thesis
    by (simp add: kept_expiry_checks dropped_expiry_checks o_def)
qed

lemmas sweep_defs =
  check_tick_def expired_when_checked_def purged_positions_def surviving_positions_def

text \<open>
  Claim C6. In any state reached from a constructed cache, \<open>purgeExpired()\<close> leaves
  in the store exactly the entries that were not expired at the clock read at which
  each was checked, in the order they had; it returns the number of entries that were
  expired when checked, which is the number of entries the store lost; the sink, when
  there is one, is invoked once for each removed entry with its key and value, in the
  order of the store; the eviction counter gains the returned number when tracking;
  hits and misses are unchanged.
\<close>

theorem purgeExpired_spec:
  assumes "constructor cap options = Inr c0"
    and "run clk ops (c0, w0) = (c, w)"
    and "purgeExpired clk (c, w) = (n, c', w')"
  shows "cache c' = map ((!) (cache c)) (surviving_positions clk w (cache c)) \<and>
         n = length (purged_positions clk w (cache c)) \<and>
         size' c' + n = size' c \<and>
         sink_calls w' = sink_calls w @
           notified c (map (\<lambda>i. (fst (cache c ! i), value' (snd (cache c ! i))))
                        (purged_positions clk w (cache c))) \<and>
         evictions c' = evictions c + counted c n \<and>
         hits c' = hits c \<and> misses c' = misses c"
proof -
  from wf_constructor[OF assms(1)] have "well_formed c0" by simp
  from wf_run[OF this assms(2)] have "distinct (keys c)" by (simp add: well_formed_def)
  from purgeExpired_sweep[OF this assms(3)] positions_partition[of clk w "cache c"]
  show ?thesis by (simp add: size'_def)
qed

theorem purgeExpired_spec_witness:
  "constructor (Num 2) (Some example_options) = Inr fresh_cache \<and>
   run rising_clock [Set ''a'' 1 (Value (Num 40)), Set ''b'' 2 Null] (fresh_cache, example_world)
     = (example_cache, example_world\<lparr>ticks := 1\<rparr>) \<and>
   purgeExpired rising_clock (example_cache, example_world\<lparr>ticks := 1\<rparr>)
     = (1,
        example_cache\<lparr>cache := [(''b'', \<lparr>value' = 2, expiresAt = None\<rparr>)], evictions := 1\<rparr>,
        \<lparr>ticks = 2, sink_calls = [(''a'', 1)], console = []\<rparr>) \<and>
   purged_positions rising_clock (example_world\<lparr>ticks := 1\<rparr>) (cache example_cache) = [0] \<and>
   surviving_positions rising_clock (example_world\<lparr>ticks := 1\<rparr>) (cache example_cache) = [1] \<and>
   (1::nat) = length (purged_positions rising_clock (example_world\<lparr>ticks := 1\<rparr>)
                        (cache example_cache))"
proof -
  have h1: "constructor (Num 2) (Some example_options) = Inr fresh_cache"
    by (simp add: constructor_def example_defs)
  have h2: "run rising_clock [Set ''a'' 1 (Value (Num 40)), Set ''b'' 2 Null]
              (fresh_cache, example_world) = (example_cache, example_world\<lparr>ticks := 1\<rparr>)"
    by (simp add: model_defs example_defs)
  have h3: "purgeExpired rising_clock (example_cache, example_world\<lparr>ticks := 1\<rparr>)
     = (1,
        example_cache\<lparr>cache := [(''b'', \<lparr>value' = 2, expiresAt = None\<rparr>)], evictions := 1\<rparr>,
        \<lparr>ticks = 2, sink_calls = [(''a'', 1)], console = []\<rparr>)"
    by (simp add: model_defs example_defs)
  have h4: "purged_positions rising_clock (example_world\<lparr>ticks := 1\<rparr>) (cache example_cache) = [0]"
    by (simp add: sweep_defs model_defs example_defs)
  have h5: "surviving_positions rising_clock (example_world\<lparr>ticks := 1\<rparr>) (cache example_cache) = [1]"
    by (simp add: sweep_defs model_defs example_defs)
  from purgeExpired_spec[OF h1 h2 h3] h1 h2 h3 h4 h5 show ?thesis by simp
qed

subsection \<open>A sink that fails\<close>

lemma alike_dan:
  assumes a: "alike_up_to_sink (c1, w1) (c2, w2)"
  shows "fst (deleteAndNotifyIfKeyExpired clk key (c1, w1)) =
           fst (deleteAndNotifyIfKeyExpired clk key (c2, w2)) \<and>
         alike_up_to_sink (snd (deleteAndNotifyIfKeyExpired clk key (c1, w1)))
                          (snd (deleteAndNotifyIfKeyExpired clk key (c2, w2)))"
proof (cases "Map_get (cache c1) key")
  case None
  moreover from a None have "Map_get (cache c2) key = None" by (simp add: alike_up_to_sink_def)
  ultimately show ?thesis using a by (simp add: dan_absent)
next
  case (Some e)
  from a Some have s2: "Map_get (cache c2) key = Some e" by (simp add: alike_up_to_sink_def)
  from a have t: "ticks w2 = ticks w1" by (simp add: alike_up_to_sink_def)
  show ?thesis
  proof (cases "expired_at (clk (ticks w1)) e")
    case True
    with t have True2: "expired_at (clk (ticks w2)) e" by simp
    from a show ?thesis
      unfolding dan_expired[of c1 key e clk w1, OF Some True]
                dan_expired[of c2 key e clk w2, OF s2 True2]
      by (auto simp: alike_up_to_sink_def sink_calls_emit ticks_emit tick_def notified_def
            counted_def)
  next
    case False
    with t have False2: "\<not> expired_at (clk (ticks w2)) e" by simp
    from a show ?thesis
      unfolding dan_live[of c1 key e clk w1, OF Some False]
                dan_live[of c2 key e clk w2, OF s2 False2]
      by (auto simp: alike_up_to_sink_def tick_def)
  qed
qed

lemma alike_dan':
  assumes "alike_up_to_sink s1 s2"
  obtains b c1' w1' c2' w2' where
    "deleteAndNotifyIfKeyExpired clk key s1 = (b, c1', w1')"
    "deleteAndNotifyIfKeyExpired clk key s2 = (b, c2', w2')"
    "alike_up_to_sink (c1', w1') (c2', w2')"
proof -
  obtain c1 w1 c2 w2 where s: "s1 = (c1, w1)" "s2 = (c2, w2)"
    by (cases s1, cases s2) auto
  obtain b c1' w1' where d1: "deleteAndNotifyIfKeyExpired clk key s1 = (b, c1', w1')"
    by (cases "deleteAndNotifyIfKeyExpired clk key s1") auto
  obtain b2 c2' w2' where d2: "deleteAndNotifyIfKeyExpired clk key s2 = (b2, c2', w2')"
    by (cases "deleteAndNotifyIfKeyExpired clk key s2") auto
  from alike_dan[of c1 w1 c2 w2 clk key] assms s d1 d2
  have "b = b2" "alike_up_to_sink (c1', w1') (c2', w2')" by simp_all
  with d1 d2 that show thesis by blast
qed

lemma alike_cache: "alike_up_to_sink (c1, w1) (c2, w2) \<Longrightarrow> cache c2 = cache c1"
  by (simp add: alike_up_to_sink_def)

lemma alike_get:
  assumes "alike_up_to_sink s1 s2"
  shows "fst (get clk key s1) = fst (get clk key s2) \<and>
         alike_up_to_sink (snd (get clk key s1)) (snd (get clk key s2))"
proof -
  from assms obtain b c1' w1' c2' w2' where
    d: "deleteAndNotifyIfKeyExpired clk key s1 = (b, c1', w1')"
       "deleteAndNotifyIfKeyExpired clk key s2 = (b, c2', w2')"
    and a: "alike_up_to_sink (c1', w1') (c2', w2')"
    by (rule alike_dan')
  from a show ?thesis
    by (cases b; cases "Map_get (cache c1') key")
       (simp_all add: get_def d alike_cache[OF a] alike_up_to_sink_def counted_def)
qed

lemma alike_peek:
  assumes "alike_up_to_sink s1 s2"
  shows "fst (peek clk key s1) = fst (peek clk key s2) \<and>
         alike_up_to_sink (snd (peek clk key s1)) (snd (peek clk key s2))"
proof -
  from assms obtain b c1' w1' c2' w2' where
    d: "deleteAndNotifyIfKeyExpired clk key s1 = (b, c1', w1')"
       "deleteAndNotifyIfKeyExpired clk key s2 = (b, c2', w2')"
    and a: "alike_up_to_sink (c1', w1') (c2', w2')"
    by (rule alike_dan')
  from a show ?thesis
    by (cases b; cases "Map_get (cache c1') key")
       (simp_all add: peek_def d alike_cache[OF a])
qed

lemma alike_has:
  assumes "alike_up_to_sink s1 s2"
  shows "fst (has clk key s1) = fst (has clk key s2) \<and>
         alike_up_to_sink (snd (has clk key s1)) (snd (has clk key s2))"
proof -
  from assms obtain b c1' w1' c2' w2' where
    d: "deleteAndNotifyIfKeyExpired clk key s1 = (b, c1', w1')"
       "deleteAndNotifyIfKeyExpired clk key s2 = (b, c2', w2')"
    and a: "alike_up_to_sink (c1', w1') (c2', w2')"
    by (rule alike_dan')
  from a show ?thesis
    by (cases b) (simp_all add: has_def d alike_cache[OF a])
qed

lemma alike_evictOldest:
  assumes a: "alike_up_to_sink (c1, w1) (c2, w2)"
  shows "fst (evictOldest (c1, w1)) = fst (evictOldest (c2, w2)) \<and>
         alike_up_to_sink (snd (evictOldest (c1, w1))) (snd (evictOldest (c2, w2)))"
proof (cases "cache c1")
  case Nil
  with a show ?thesis by (simp add: evictOldest_def alike_cache[OF a])
next
  case (Cons p rest)
  obtain k e where "p = (k, e)" by (cases p)
  with Cons a show ?thesis
    by (auto simp: evictOldest_def alike_cache[OF a] alike_up_to_sink_def sink_calls_emit
          ticks_emit notified_def counted_def)
qed

lemma alike_delete:
  assumes "alike_up_to_sink s1 s2"
  shows "fst (delete key s1) = fst (delete key s2) \<and>
         alike_up_to_sink (snd (delete key s1)) (snd (delete key s2))"
  using assms by (cases s1; cases s2) (simp add: delete_def alike_up_to_sink_def)

lemma alike_clear:
  assumes "alike_up_to_sink s1 s2"
  shows "alike_up_to_sink (clear s1) (clear s2)"
  using assms by (cases s1; cases s2) (simp add: clear_def alike_up_to_sink_def)

lemma alike_purgeLoop:
  "alike_up_to_sink s1 s2 \<Longrightarrow>
   fst (purgeLoop clk ks n s1) = fst (purgeLoop clk ks n s2) \<and>
   alike_up_to_sink (snd (purgeLoop clk ks n s1)) (snd (purgeLoop clk ks n s2))"
proof (induction ks arbitrary: n s1 s2)
  case Nil
  then show ?case by simp
next
  case (Cons k ks)
  from Cons.prems obtain b c1' w1' c2' w2' where
    d: "deleteAndNotifyIfKeyExpired clk k s1 = (b, c1', w1')"
       "deleteAndNotifyIfKeyExpired clk k s2 = (b, c2', w2')"
    and a: "alike_up_to_sink (c1', w1') (c2', w2')"
    by (rule alike_dan')
  from Cons.IH[OF a] show ?case by (cases b) (simp_all add: d)
qed

lemma alike_purgeExpired:
  assumes "alike_up_to_sink s1 s2"
  shows "fst (purgeExpired clk s1) = fst (purgeExpired clk s2) \<and>
         alike_up_to_sink (snd (purgeExpired clk s1)) (snd (purgeExpired clk s2))"
proof -
  from assms have "keys (fst s2) = keys (fst s1)" by (simp add: alike_up_to_sink_def keys_def)
  with alike_purgeLoop[OF assms, of clk "keys (fst s1)" 0] show ?thesis
    by (simp add: purgeExpired_def)
qed

lemma alike_set':
  assumes "alike_up_to_sink s1 s2"
  shows "fst (set' clk key v t s1) = fst (set' clk key v t s2) \<and>
         alike_up_to_sink (snd (set' clk key v t s1)) (snd (set' clk key v t s2))"
proof -
  obtain p c11 w11 where h1: "has clk key s1 = (p, c11, w11)"
    by (cases "has clk key s1") auto
  obtain p2 c21 w21 where h2: "has clk key s2 = (p2, c21, w21)"
    by (cases "has clk key s2") auto
  from alike_has[OF assms, of clk key] h1 h2
  have p: "p2 = p" and a1: "alike_up_to_sink (c11, w11) (c21, w21)" by simp_all
  obtain c12 w12 where e1:
    "(if \<not> p \<and> int (size' c11) \<ge> capacity c11
      then (case evictOldest (c11, w11) of (_, c', w') \<Rightarrow> (c', w'))
      else (c11, w11)) = (c12, w12)"
    by (metis surj_pair)
  obtain c22 w22 where e2:
    "(if \<not> p \<and> int (size' c21) \<ge> capacity c21
      then (case evictOldest (c21, w21) of (_, c', w') \<Rightarrow> (c', w'))
      else (c21, w21)) = (c22, w22)"
    by (metis surj_pair)
  from a1 have same: "size' c21 = size' c11" "capacity c21 = capacity c11"
    by (simp_all add: alike_up_to_sink_def size'_def)
  have a2: "alike_up_to_sink (c12, w12) (c22, w22)"
  proof (cases "\<not> p \<and> int (size' c11) \<ge> capacity c11")
    case True
    with e1 e2 same alike_evictOldest[OF a1] show ?thesis
      by (auto split: prod.splits)
  next
    case False
    with e1 e2 same a1 show ?thesis by auto
  qed
  then have d: "defaultTtl c22 = defaultTtl c12" by (simp add: alike_up_to_sink_def)
  have r1: "set' clk key v t s1 =
     (let fallback =
                    (case defaultTtl c12 of
                       None \<Rightarrow> (Inr (), setMostRecentlyUsed key v None c12, w12)
                     | Some d \<Rightarrow>
                         (if d \<noteq> 0 \<and> d > 0
                          then (case Date_now clk w12 of (now, w3) \<Rightarrow>
                                  (Inr (), setMostRecentlyUsed key v (Some (now + d)) c12, w3))
                          else (Inr (), setMostRecentlyUsed key v None c12, w12)))
              in case t of
                   Null \<Rightarrow> (Inr (), setMostRecentlyUsed key v None c12, w12)
                 | Value n \<Rightarrow>
                     (if gt_zero n
                      then (if \<not> isInteger n
                            then (Inl (Error ''Item TTL must be a positive integer if specified''),
                                  c12, w12)
                            else (case Date_now clk w12 of (now, w3) \<Rightarrow>
                                    (Inr (),
                                     setMostRecentlyUsed key v (Some (now + toInt n)) c12,
                                     w3)))
                      else fallback)
                 | Undefined \<Rightarrow> fallback)"
    by (simp only: set'_def h1 prod.case e1)
  have r2: "set' clk key v t s2 =
     (let fallback =
                    (case defaultTtl c22 of
                       None \<Rightarrow> (Inr (), setMostRecentlyUsed key v None c22, w22)
                     | Some d \<Rightarrow>
                         (if d \<noteq> 0 \<and> d > 0
                          then (case Date_now clk w22 of (now, w3) \<Rightarrow>
                                  (Inr (), setMostRecentlyUsed key v (Some (now + d)) c22, w3))
                          else (Inr (), setMostRecentlyUsed key v None c22, w22)))
              in case t of
                   Null \<Rightarrow> (Inr (), setMostRecentlyUsed key v None c22, w22)
                 | Value n \<Rightarrow>
                     (if gt_zero n
                      then (if \<not> isInteger n
                            then (Inl (Error ''Item TTL must be a positive integer if specified''),
                                  c22, w22)
                            else (case Date_now clk w22 of (now, w3) \<Rightarrow>
                                    (Inr (),
                                     setMostRecentlyUsed key v (Some (now + toInt n)) c22,
                                     w3)))
                      else fallback)
                 | Undefined \<Rightarrow> fallback)"
    by (simp only: set'_def h2 p prod.case e2)
  from a2 show ?thesis
    unfolding r1 r2 d Let_def
    by (cases t; cases "defaultTtl c12")
       (simp_all add: alike_up_to_sink_def Date_now_def)
qed

lemma alike_step:
  assumes "alike_up_to_sink s1 s2"
  shows "alike_up_to_sink (step clk x s1) (step clk x s2)"
proof (cases x)
  case (Set k v t)
  with alike_set'[OF assms, of clk k v t] show ?thesis by simp
next
  case (Get k)
  with alike_get[OF assms, of clk k] show ?thesis by simp
next
  case (Peek k)
  with alike_peek[OF assms, of clk k] show ?thesis by simp
next
  case (Has k)
  with alike_has[OF assms, of clk k] show ?thesis by simp
next
  case (Delete k)
  with alike_delete[OF assms, of k] show ?thesis by simp
next
  case Clear
  with alike_clear[OF assms] show ?thesis by simp
next
  case PurgeExpired
  with alike_purgeExpired[OF assms, of clk] show ?thesis by simp
qed

lemma alike_run:
  "alike_up_to_sink s1 s2 \<Longrightarrow> alike_up_to_sink (run clk xs s1) (run clk xs s2)"
proof (induction xs arbitrary: s1 s2)
  case Nil
  then show ?case by simp
next
  case (Cons x xs)
  from Cons.IH[OF alike_step[OF Cons.prems, of clk x]] show ?case by simp
qed

text \<open>
  Claim C8. Take two states alike up to the sink: the same cache and the same history,
  with two callbacks that may differ, for instance one that throws at every invocation
  and one that always returns. Then \<open>set\<close>, \<open>get\<close>, \<open>peek\<close>, \<open>has\<close> and
  \<open>purgeExpired\<close> return the same result to the caller in both (in particular a
  throwing sink never turns a result into a failure), and the states they lead to are
  again alike up to the sink: same store, same counters, same clock reads, same sink
  invocations. The same holds for any sequence of operations.
\<close>

theorem sink_failure_is_contained:
  assumes "alike_up_to_sink s1 s2"
  shows "fst (set' clk key v t s1) = fst (set' clk key v t s2) \<and>
         alike_up_to_sink (snd (set' clk key v t s1)) (snd (set' clk key v t s2)) \<and>
         fst (get clk key s1) = fst (get clk key s2) \<and>
         alike_up_to_sink (snd (get clk key s1)) (snd (get clk key s2)) \<and>
         fst (peek clk key s1) = fst (peek clk key s2) \<and>
         alike_up_to_sink (snd (peek clk key s1)) (snd (peek clk key s2)) \<and>
         fst (has clk key s1) = fst (has clk key s2) \<and>
         alike_up_to_sink (snd (has clk key s1)) (snd (has clk key s2)) \<and>
         fst (purgeExpired clk s1) = fst (purgeExpired clk s2) \<and>
         alike_up_to_sink (snd (purgeExpired clk s1)) (snd (purgeExpired clk s2)) \<and>
         alike_up_to_sink (run clk ops s1) (run clk ops s2)"
  using alike_set'[OF assms, of clk key v t] alike_get[OF assms, of clk key]
    alike_peek[OF assms, of clk key] alike_has[OF assms, of clk key]
    alike_purgeExpired[OF assms, of clk] alike_run[OF assms, of clk ops]
  by simp

theorem sink_failure_is_contained_witness:
  "alike_up_to_sink (faulty_cache, example_world) (example_cache, example_world) \<and>
   get late_clock ''a'' (faulty_cache, example_world)
     = (None,
        faulty_cache\<lparr>cache := [(''b'', \<lparr>value' = 2, expiresAt = None\<rparr>)],
                     misses := 1, evictions := 1\<rparr>,
        \<lparr>ticks = 1, sink_calls = [(''a'', 1)], console = [(''a'', 1)]\<rparr>) \<and>
   get late_clock ''a'' (example_cache, example_world)
     = (None,
        example_cache\<lparr>cache := [(''b'', \<lparr>value' = 2, expiresAt = None\<rparr>)],
                      misses := 1, evictions := 1\<rparr>,
        \<lparr>ticks = 1, sink_calls = [(''a'', 1)], console = []\<rparr>) \<and>
   fst (get late_clock ''a'' (faulty_cache, example_world))
     = fst (get late_clock ''a'' (example_cache, example_world)) \<and>
   alike_up_to_sink (snd (get late_clock ''a'' (faulty_cache, example_world)))
                    (snd (get late_clock ''a'' (example_cache, example_world)))"
proof -
  have h: "alike_up_to_sink (faulty_cache, example_world) (example_cache, example_world)"
    by (simp add: alike_up_to_sink_def example_defs)
  have g1: "get late_clock ''a'' (faulty_cache, example_world)
     = (None,
        faulty_cache\<lparr>cache := [(''b'', \<lparr>value' = 2, expiresAt = None\<rparr>)],
                     misses := 1, evictions := 1\<rparr>,
        \<lparr>ticks = 1, sink_calls = [(''a'', 1)], console = [(''a'', 1)]\<rparr>)"
    by (simp add: model_defs example_defs)
  have g2: "get late_clock ''a'' (example_cache, example_world)
     = (None,
        example_cache\<lparr>cache := [(''b'', \<lparr>value' = 2, expiresAt = None\<rparr>)],
                      misses := 1, evictions := 1\<rparr>,
        \<lparr>ticks = 1, sink_calls = [(''a'', 1)], console = []\<rparr>)"
    by (simp add: model_defs example_defs)
  from sink_failure_is_contained[OF h, of late_clock "''a''" 0 Undefined "[]"]
  have "fst (get late_clock ''a'' (faulty_cache, example_world))
          = fst (get late_clock ''a'' (example_cache, example_world))"
    and "alike_up_to_sink (snd (get late_clock ''a'' (faulty_cache, example_world)))
                    (snd (get late_clock ''a'' (example_cache, example_world)))"
    by blast+
  with h g1 g2 show ?thesis by blast
qed

subsection \<open>When the sink is invoked\<close>

lemma notified_Some: "onEvict (events c) = Some f \<Longrightarrow> notified c xs = xs"
  by (simp add: notified_def)

lemma sink_calls_dan_expired:
  assumes "Map_get (cache c) key = Some e" "expired_at (clk (ticks w)) e"
  shows "sink_calls (snd (snd (deleteAndNotifyIfKeyExpired clk key (c, w)))) =
           sink_calls w @ notified c [(key, value' e)]"
  by (simp add: dan_expired[of c key e clk w, OF assms] sink_calls_emit sink_calls_tick)

lemma fst_dan_expired:
  assumes "Map_get (cache c) key = Some e" "expired_at (clk (ticks w)) e"
  shows "fst (deleteAndNotifyIfKeyExpired clk key (c, w))"
  by (simp add: dan_expired[of c key e clk w, OF assms])

lemma sink_calls_get_expired:
  assumes "Map_get (cache c) key = Some e" "expired_at (clk (ticks w)) e"
  shows "sink_calls (snd (snd (get clk key (c, w)))) = sink_calls w @ notified c [(key, value' e)]"
  by (simp add: get_def dan_expired[of c key e clk w, OF assms] sink_calls_emit sink_calls_tick)

lemma sink_calls_peek_expired:
  assumes "Map_get (cache c) key = Some e" "expired_at (clk (ticks w)) e"
  shows "sink_calls (snd (snd (peek clk key (c, w)))) = sink_calls w @ notified c [(key, value' e)]"
  by (simp add: peek_def dan_expired[of c key e clk w, OF assms] sink_calls_emit sink_calls_tick)

lemma sink_calls_has_expired:
  assumes "Map_get (cache c) key = Some e" "expired_at (clk (ticks w)) e"
  shows "sink_calls (snd (snd (has clk key (c, w)))) = sink_calls w @ notified c [(key, value' e)]"
  by (simp add: has_def dan_expired[of c key e clk w, OF assms] sink_calls_emit sink_calls_tick)

lemma sink_calls_evictOldest:
  assumes "cache c \<noteq> []"
  shows "sink_calls (snd (snd (evictOldest (c, w)))) =
           sink_calls w @ notified c [(fst (hd (cache c)), value' (snd (hd (cache c))))]"
  using assms by (cases "cache c") (auto simp: evictOldest_def sink_calls_emit)

lemma sink_calls_set'_at_capacity:
  assumes "well_formed c" "\<not> Map_has (cache c) key" "int (size' c) = capacity c"
  shows "sink_calls (snd (snd (set' clk key v t (c, w)))) =
           sink_calls w @ notified c [(fst (hd (cache c)), value' (snd (hd (cache c))))]"
proof -
  obtain r c' w' where s: "set' clk key v t (c, w) = (r, c', w')"
    by (cases "set' clk key v t (c, w)") auto
  from set'_at_capacity[OF assms s] s show ?thesis by simp
qed

lemma sink_calls_purgeExpired:
  assumes "distinct (keys c)"
  shows "sink_calls (snd (snd (purgeExpired clk (c, w)))) =
           sink_calls w @
           notified c (map (\<lambda>i. (fst (cache c ! i), value' (snd (cache c ! i))))
                        (purged_positions clk w (cache c)))"
proof -
  obtain n c' w' where s: "purgeExpired clk (c, w) = (n, c', w')"
    by (cases "purgeExpired clk (c, w)") auto
  from purgeExpired_sweep[OF assms s] s show ?thesis by simp
qed

text \<open>
  Claim C7. In any state reached from a constructed cache that has a sink:
  \<open>delete\<close> and \<open>clear\<close> leave the list of sink invocations as it was; the eviction
  of the oldest entry, and a \<open>set\<close> of an absent key at capacity, add exactly one
  invocation, with the key and value of the first entry of the store; \<open>get\<close>,
  \<open>has\<close> and \<open>peek\<close> of a key whose entry is expired at the clock reading of the call
  add exactly one invocation, with that key and the stored value; \<open>purgeExpired\<close>
  adds exactly one invocation for each entry expired when checked, with its key and
  value, in the order of the store.
\<close>

theorem sink_invocations:
  assumes "constructor cap options = Inr c0"
    and "run clk ops (c0, w0) = (c, w)"
    and "onEvict (events c) = Some f"
  shows "sink_calls (snd (snd (delete key (c, w)))) = sink_calls w \<and>
         sink_calls (snd (clear (c, w))) = sink_calls w \<and>
         (cache c \<noteq> [] \<longrightarrow>
            sink_calls (snd (snd (evictOldest (c, w)))) =
              sink_calls w @ [(fst (hd (cache c)), value' (snd (hd (cache c))))]) \<and>
         (\<not> Map_has (cache c) key \<and> int (size' c) = capacity c \<longrightarrow>
            sink_calls (snd (snd (set' clk key v t (c, w)))) =
              sink_calls w @ [(fst (hd (cache c)), value' (snd (hd (cache c))))]) \<and>
         (Map_get (cache c) key = Some e \<and> expired_at (clk (ticks w)) e \<longrightarrow>
            sink_calls (snd (snd (get clk key (c, w)))) = sink_calls w @ [(key, value' e)] \<and>
            sink_calls (snd (snd (has clk key (c, w)))) = sink_calls w @ [(key, value' e)] \<and>
            sink_calls (snd (snd (peek clk key (c, w)))) = sink_calls w @ [(key, value' e)]) \<and>
         sink_calls (snd (snd (purgeExpired clk (c, w)))) =
           sink_calls w @
           map (\<lambda>i. (fst (cache c ! i), value' (snd (cache c ! i))))
             (purged_positions clk w (cache c))"
proof -
  from wf_constructor[OF assms(1)] have "well_formed c0" by simp
  from wf_run[OF this assms(2)] have wf: "well_formed c" by simp
  then have d: "distinct (keys c)" by (simp add: well_formed_def)
  note n = notified_Some[OF assms(3)]
  have 1: "sink_calls (snd (snd (delete key (c, w)))) = sink_calls w"
    by (simp add: delete_def)
  have 2: "sink_calls (snd (clear (c, w))) = sink_calls w"
    by (simp add: clear_def)
  have 3: "cache c \<noteq> [] \<longrightarrow>
            sink_calls (snd (snd (evictOldest (c, w)))) =
              sink_calls w @ [(fst (hd (cache c)), value' (snd (hd (cache c))))]"
    using sink_calls_evictOldest[of c w] by (simp add: n)
  have 4: "\<not> Map_has (cache c) key \<and> int (size' c) = capacity c \<longrightarrow>
            sink_calls (snd (snd (set' clk key v t (c, w)))) =
              sink_calls w @ [(fst (hd (cache c)), value' (snd (hd (cache c))))]"
    using sink_calls_set'_at_capacity[OF wf, of key clk v t w] by (simp add: n)
  have 5: "Map_get (cache c) key = Some e \<and> expired_at (clk (ticks w)) e \<longrightarrow>
            sink_calls (snd (snd (get clk key (c, w)))) = sink_calls w @ [(key, value' e)] \<and>
            sink_calls (snd (snd (has clk key (c, w)))) = sink_calls w @ [(key, value' e)] \<and>
            sink_calls (snd (snd (peek clk key (c, w)))) = sink_calls w @ [(key, value' e)]"
    using sink_calls_get_expired[of c key e clk w] sink_calls_has_expired[of c key e clk w]
      sink_calls_peek_expired[of c key e clk w] by (simp add: n)
  have 6: "sink_calls (snd (snd (purgeExpired clk (c, w)))) =
           sink_calls w @
           map (\<lambda>i. (fst (cache c ! i), value' (snd (cache c ! i))))
             (purged_positions clk w (cache c))"
    using sink_calls_purgeExpired[OF d, of clk w] by (simp add: n)
  from 1 2 3 4 5 6 show ?thesis by blast
qed

theorem sink_invocations_witness:
  "constructor (Num 2) (Some example_options) = Inr fresh_cache \<and>
   run rising_clock [Set ''a'' 1 (Value (Num 40)), Set ''b'' 2 Null] (fresh_cache, example_world)
     = (example_cache, example_world\<lparr>ticks := 1\<rparr>) \<and>
   onEvict (events example_cache) = Some (\<lambda>k v. Returns) \<and>
   cache example_cache \<noteq> [] \<and>
   \<not> Map_has (cache example_cache) ''c'' \<and>
   int (size' example_cache) = capacity example_cache \<and>
   Map_get (cache example_cache) ''a'' = Some \<lparr>value' = 1, expiresAt = Some 50\<rparr> \<and>
   expired_at (rising_clock (ticks (example_world\<lparr>ticks := 1\<rparr>)))
     \<lparr>value' = 1::nat, expiresAt = Some 50\<rparr> \<and>
   sink_calls (snd (snd (delete ''a'' (example_cache, example_world\<lparr>ticks := 1\<rparr>)))) = [] \<and>
   sink_calls (snd (clear (example_cache, example_world\<lparr>ticks := 1\<rparr>))) = [] \<and>
   sink_calls (snd (snd (evictOldest (example_cache, example_world\<lparr>ticks := 1\<rparr>))))
     = [(''a'', 1)] \<and>
   sink_calls (snd (snd (set' rising_clock ''c'' 3 Null
                           (example_cache, example_world\<lparr>ticks := 1\<rparr>))))
     = [(''a'', 1)] \<and>
   sink_calls (snd (snd (get rising_clock ''a'' (example_cache, example_world\<lparr>ticks := 1\<rparr>))))
     = [(''a'', 1)] \<and>
   sink_calls (snd (snd (has rising_clock ''a'' (example_cache, example_world\<lparr>ticks := 1\<rparr>))))
     = [(''a'', 1)] \<and>
   sink_calls (snd (snd (peek rising_clock ''a'' (example_cache, example_world\<lparr>ticks := 1\<rparr>))))
     = [(''a'', 1)] \<and>
   sink_calls (snd (snd (purgeExpired rising_clock
                           (example_cache, example_world\<lparr>ticks := 1\<rparr>))))
     = [(''a'', 1)]"
proof -
  have h1: "constructor (Num 2) (Some example_options) = Inr fresh_cache"
    by (simp add: constructor_def example_defs)
  have h2: "run rising_clock [Set ''a'' 1 (Value (Num 40)), Set ''b'' 2 Null]
              (fresh_cache, example_world) = (example_cache, example_world\<lparr>ticks := 1\<rparr>)"
    by (simp add: model_defs example_defs)
  have h3: "onEvict (events example_cache) = Some (\<lambda>k v. Returns)"
    by (simp add: example_defs)
  have h4: "cache example_cache \<noteq> []" "\<not> Map_has (cache example_cache) ''c''"
    "int (size' example_cache) = capacity example_cache"
    "Map_get (cache example_cache) ''a'' = Some \<lparr>value' = 1, expiresAt = Some 50\<rparr>"
    "expired_at (rising_clock (ticks (example_world\<lparr>ticks := 1\<rparr>)))
       \<lparr>value' = 1::nat, expiresAt = Some 50\<rparr>"
    by (simp_all add: model_defs example_defs)
  have h5: "purged_positions rising_clock (example_world\<lparr>ticks := 1\<rparr>) (cache example_cache) = [0]"
    by (simp add: sweep_defs model_defs example_defs)
  have h6: "sink_calls (example_world\<lparr>ticks := 1\<rparr>) = []"
    "hd (cache example_cache) = (''a'', \<lparr>value' = 1, expiresAt = Some 50\<rparr>)"
    "cache example_cache ! 0 = (''a'', \<lparr>value' = 1, expiresAt = Some 50\<rparr>)"
    by (simp_all add: example_defs)
  from sink_invocations[OF h1 h2 h3, of "''a''"]
  have a: "sink_calls (snd (snd (delete ''a'' (example_cache, example_world\<lparr>ticks := 1\<rparr>)))) = []"
    "sink_calls (snd (clear (example_cache, example_world\<lparr>ticks := 1\<rparr>))) = []"
    "sink_calls (snd (snd (evictOldest (example_cache, example_world\<lparr>ticks := 1\<rparr>))))
       = [(''a'', 1)]"
    "sink_calls (snd (snd (purgeExpired rising_clock
                           (example_cache, example_world\<lparr>ticks := 1\<rparr>))))
       = [(''a'', 1)]"
    using h4 h5 h6 by simp_all
  from sink_invocations[OF h1 h2 h3, of "''c''" 3 Null] h4 h6
  have b: "sink_calls (snd (snd (set' rising_clock ''c'' 3 Null
                           (example_cache, example_world\<lparr>ticks := 1\<rparr>))))
     = [(''a'', 1)]" by simp
  from sink_invocations[OF h1 h2 h3, of "''a''" 0 Null "\<lparr>value' = 1, expiresAt = Some 50\<rparr>"] h4 h6
  have c: "sink_calls (snd (snd (get rising_clock ''a'' (example_cache, example_world\<lparr>ticks := 1\<rparr>))))
     = [(''a'', 1)]"
   "sink_calls (snd (snd (has rising_clock ''a'' (example_cache, example_world\<lparr>ticks := 1\<rparr>))))
     = [(''a'', 1)]"
   "sink_calls (snd (snd (peek rising_clock ''a'' (example_cache, example_world\<lparr>ticks := 1\<rparr>))))
     = [(''a'', 1)]" by simp_all
  from h1 h2 h3 h4 a b c show ?thesis by simp
qed

end
